theory Spec2Isabelle
  imports Main "HOL-Library.Word"
begin

unbundle bit_operations_syntax

section \<open>Machine integers and errors\<close>

text \<open>
  The counters of both queues are \<open>unsigned long\<close> on a 64-bit target; addition wraps
  around. \<open>ULONG_MAX\<close> is the all-ones value that marks a registry entry without a
  reservation.
\<close>

type_synonym ulong = "64 word"

definition ULONG_MAX :: ulong where
  "ULONG_MAX = - 1"

text \<open>
  A failed \<open>assert\<close> aborts the process; an array access outside the allocated block is
  undefined behaviour in the source and is a separate error value here, so that
  it is never silently given a value.
\<close>

datatype error = AssertionFailed | OutOfBounds

section \<open>Naive serialized ring buffer queue\<close>

text \<open>
  \<open>NaiveQueue\<close>: two counters and the slot array \<open>ptr_array_\<close> of \<open>Q_SIZE\<close> pointers.
  The array is addressed by offset; every offset the code uses is
  \<open>i & Q_MASK\<close>, which is below \<open>Q_SIZE\<close> (lemma \<open>slot_index_in_bounds\<close> below).
  \<open>Q_SIZE\<close> is a template parameter and is passed as the argument \<open>Q\<close>.
\<close>

record 'a naive_queue =
  nq_head :: ulong
  nq_tail :: ulong
  nq_ptr_array :: "nat \<Rightarrow> 'a"

definition Q_MASK :: "ulong \<Rightarrow> ulong" where
  "Q_MASK Q = Q - 1"

text \<open>
  The constructor: \<open>memalign\<close> either returns a block of uninitialised memory
  (\<open>Some mem\<close>) or \<open>NULL\<close> (\<open>None\<close>), and \<open>assert(ptr_array_)\<close> aborts on \<open>NULL\<close>.
\<close>

definition NaiveQueue_new :: "(nat \<Rightarrow> 'a) option \<Rightarrow> error + 'a naive_queue" where
  "NaiveQueue_new alloc =
     (case alloc of
        None \<Rightarrow> Inl AssertionFailed
      | Some mem \<Rightarrow> Inr \<lparr>nq_head = 0, nq_tail = 0, nq_ptr_array = mem\<rparr>)"

text \<open>
  \<open>push\<close> and \<open>pop\<close> run under the mutex, so each is one atomic transition that is
  enabled when the predicate of its condition-variable wait holds. \<open>None\<close> means that the
  caller stays blocked in \<open>wait\<close> in this state.
\<close>

definition naive_push :: "ulong \<Rightarrow> 'a \<Rightarrow> 'a naive_queue \<Rightarrow> 'a naive_queue option" where
  "naive_push Q x q =
     (if nq_tail q + Q > nq_head q
      then Some (q\<lparr>nq_ptr_array := (nq_ptr_array q)(unat (nq_head q AND Q_MASK Q) := x),
                  nq_head := nq_head q + 1\<rparr>)
      else None)"

definition naive_pop :: "ulong \<Rightarrow> 'a naive_queue \<Rightarrow> ('a \<times> 'a naive_queue) option" where
  "naive_pop Q q =
     (if nq_tail q < nq_head q
      then Some (nq_ptr_array q (unat (nq_tail q AND Q_MASK Q)),
                 q\<lparr>nq_tail := nq_tail q + 1\<rparr>)
      else None)"



text \<open>
  The capacity is meant to be a power of two, so that \<open>i & Q_MASK\<close> is \<open>i\<close> modulo
  \<open>Q_SIZE\<close>. Nothing in the source checks it.
\<close>

definition is_pow2 :: "ulong \<Rightarrow> bool" where
  "is_pow2 Q = (\<exists>n \<in> set [0..<64]. Q = 2 ^ n)"

text \<open>
  The states of the naive queue that its operations can reach from the constructed one
  satisfy \<open>naive_inv\<close> (lemmas \<open>naive_inv_new\<close>, \<open>naive_inv_push\<close>,
  \<open>naive_inv_pop\<close>).
\<close>

definition naive_inv :: "ulong \<Rightarrow> 'a naive_queue \<Rightarrow> bool" where
  "naive_inv Q q = (nq_tail q \<le> nq_head q \<and> unat (nq_head q) \<le> unat (nq_tail q) + unat Q)"

section \<open>Lock-free N-producers M-consumers ring-buffer queue\<close>

subsection \<open>The queue object\<close>

text \<open>\<open>struct ThrPos { volatile unsigned long head, tail; }\<close>\<close>

record ThrPos =
  tp_head :: ulong
  tp_tail :: ulong

record 'a lfq =
  n_producers :: nat
  n_consumers :: nat
  head :: ulong
  tail :: ulong
  last_head :: ulong
  last_tail :: ulong
  thr_p :: "ThrPos list"
  ptr_array :: "nat \<Rightarrow> 'a"

text \<open>
  The constructor takes the two thread counts as \<open>size_t\<close>. It allocates the registry
  with \<open>memalign(getpagesize(), sizeof(ThrPos) * n)\<close>, asserts the pointer, and fills
  \<open>sizeof(ThrPos) * n\<close> bytes with \<open>0xFF\<close>. The byte count is a \<open>size_t\<close> product
  and wraps around modulo \<open>2^64\<close> (\<open>reg_bytes\<close>), so the block holds
  \<open>reg_bytes n div sizeof(ThrPos)\<close> entries, which is \<open>n\<close> only while
  \<open>n < 2^60\<close>. The registry is the list of the entries inside the block, each read as
  a pair of 8-byte little-endian words; an index beyond the list is outside the block.
\<close>

definition sizeof_ThrPos :: nat where
  "sizeof_ThrPos = 16"

definition reg_bytes :: "ulong \<Rightarrow> nat" where
  "reg_bytes n = unat (word_of_nat sizeof_ThrPos * n)"

definition memset :: "8 word \<Rightarrow> nat \<Rightarrow> 8 word list" where
  "memset c len = replicate len c"

definition load_ulong :: "8 word list \<Rightarrow> nat \<Rightarrow> ulong" where
  "load_ulong mem off = word_rcat (rev (take 8 (drop off mem)))"

definition ThrPos_at :: "8 word list \<Rightarrow> nat \<Rightarrow> ThrPos" where
  "ThrPos_at mem i =
     \<lparr>tp_head = load_ulong mem (sizeof_ThrPos * i),
      tp_tail = load_ulong mem (sizeof_ThrPos * i + 8)\<rparr>"

definition LockFreeQueue_new ::
  "ulong \<Rightarrow> ulong \<Rightarrow> bool \<Rightarrow> (nat \<Rightarrow> 'a) option \<Rightarrow> error + 'a lfq" where
  "LockFreeQueue_new n_prod n_cons thr_p_alloc ptr_array_alloc =
     (let n = max n_cons n_prod; bytes = reg_bytes n in
      if \<not> thr_p_alloc then Inl AssertionFailed
      else
        let mem = memset 0xFF bytes in
        (case ptr_array_alloc of
           None \<Rightarrow> Inl AssertionFailed
         | Some slots \<Rightarrow>
             Inr \<lparr>n_producers = unat n_prod, n_consumers = unat n_cons,
                  head = 0, tail = 0, last_head = 0, last_tail = 0,
                  thr_p = map (ThrPos_at mem) [0..<bytes div sizeof_ThrPos],
                  ptr_array = slots\<rparr>))"

subsection \<open>Threads\<close>

text \<open>
  The queue is driven by producer threads and consumer threads. Every access to shared
  memory (a \<open>volatile\<close> load or store, the atomic fetch-and-add) is one atomic step
  of the thread; the thread's position in \<open>push\<close> or \<open>pop\<close> and the values it holds
  in registers are its local state. Memory is sequentially consistent, so
  \<open>__sync_synchronize()\<close> and \<open>sched_yield()\<close> change nothing and are folded into the
  step that follows them.

  Program points of \<open>push(ptr)\<close>:
  \<^item> \<open>P_load\<close>: entered; next evaluates \<open>thr_pos()\<close> and loads \<open>head_\<close>;
  \<^item> \<open>P_pub h\<close>: next stores \<open>h\<close> to \<open>thr_pos().head\<close> (then the fence);
  \<^item> \<open>P_faa\<close>: next is \<open>__sync_fetch_and_add(&head_, 1)\<close>;
  \<^item> \<open>P_set h\<close>: next stores the fetched value to \<open>thr_pos().head\<close>;
  \<^item> \<open>P_chk\<close>: next evaluates the condition of the \<open>while\<close>;
  \<^item> \<open>P_min\<close>: in the loop body; next yields and loads \<open>tail_\<close> into \<open>min\<close>;
  \<^item> \<open>P_scan i min\<close>: in the \<open>for\<close> loop at index \<open>i\<close>; next loads
    \<open>thr_p_[i].tail\<close>, or, when \<open>i\<close> has reached \<open>n_consumers_\<close>, stores \<open>min\<close>
    to \<open>last_tail_\<close>;
  \<^item> \<open>P_write\<close>: next stores \<open>ptr\<close> to the slot;
  \<^item> \<open>P_rel\<close>: next stores \<open>ULONG_MAX\<close> to \<open>thr_pos().head\<close> and returns.
  The program points of \<open>pop()\<close> mirror them; \<open>C_rel ret\<close> holds the pointer read
  from the slot.
\<close>

datatype 'a ppc =
    P_idle
  | P_load 'a
  | P_pub 'a ulong
  | P_faa 'a
  | P_set 'a ulong
  | P_chk 'a
  | P_min 'a
  | P_scan 'a nat ulong
  | P_write 'a
  | P_rel

datatype 'a cpc =
    C_idle
  | C_load
  | C_pub ulong
  | C_faa
  | C_set ulong
  | C_chk
  | C_min
  | C_scan nat ulong
  | C_read
  | C_rel 'a

text \<open>
  The whole system: the queue object, the local state of the producer and of the consumer
  with each thread index, and the log of the values returned by \<open>pop\<close> (consumer index
  and value, oldest first).
\<close>

record 'a sys = "'a lfq" +
  prod :: "nat \<Rightarrow> 'a ppc"
  cons :: "nat \<Rightarrow> 'a cpc"
  popped :: "(nat \<times> 'a) list"

definition spawn :: "'a lfq \<Rightarrow> 'a sys" where
  "spawn q =
     \<lparr>n_producers = n_producers q, n_consumers = n_consumers q,
      head = head q, tail = tail q, last_head = last_head q, last_tail = last_tail q,
      thr_p = thr_p q, ptr_array = ptr_array q,
      prod = (\<lambda>_. P_idle), cons = (\<lambda>_. C_idle), popped = []\<rparr>"

text \<open>
  \<open>thr_pos()\<close> for the thread whose \<open>ThrId()\<close> is \<open>tid\<close>: the assertion, then the
  reference \<open>thr_p_[tid]\<close>, returned as the index into the registry.
\<close>

definition thr_pos :: "('a, 'b) lfq_scheme \<Rightarrow> nat \<Rightarrow> error + nat" where
  "thr_pos s tid =
     (if tid < max (n_consumers s) (n_producers s)
      then (if tid < length (thr_p s) then Inr tid else Inl OutOfBounds)
      else Inl AssertionFailed)"

definition set_tp_head :: "nat \<Rightarrow> ulong \<Rightarrow> ThrPos list \<Rightarrow> ThrPos list" where
  "set_tp_head i v reg = reg[i := (reg ! i)\<lparr>tp_head := v\<rparr>]"

definition set_tp_tail :: "nat \<Rightarrow> ulong \<Rightarrow> ThrPos list \<Rightarrow> ThrPos list" where
  "set_tp_tail i v reg = reg[i := (reg ! i)\<lparr>tp_tail := v\<rparr>]"

fun push_step :: "ulong \<Rightarrow> nat \<Rightarrow> 'a ppc \<Rightarrow> 'a sys \<Rightarrow> error + 'a sys" where
  "push_step Q p P_idle s = Inr s"
| "push_step Q p (P_load x) s =
     (case thr_pos s p of
        Inl e \<Rightarrow> Inl e
      | Inr i \<Rightarrow> Inr (s\<lparr>prod := (prod s)(p := P_pub x (head s))\<rparr>))"
| "push_step Q p (P_pub x h) s =
     (case thr_pos s p of
        Inl e \<Rightarrow> Inl e
      | Inr i \<Rightarrow> Inr (s\<lparr>thr_p := set_tp_head i h (thr_p s), prod := (prod s)(p := P_faa x)\<rparr>))"
| "push_step Q p (P_faa x) s =
     Inr (s\<lparr>head := head s + 1, prod := (prod s)(p := P_set x (head s))\<rparr>)"
| "push_step Q p (P_set x h) s =
     (case thr_pos s p of
        Inl e \<Rightarrow> Inl e
      | Inr i \<Rightarrow> Inr (s\<lparr>thr_p := set_tp_head i h (thr_p s), prod := (prod s)(p := P_chk x)\<rparr>))"
| "push_step Q p (P_chk x) s =
     (case thr_pos s p of
        Inl e \<Rightarrow> Inl e
      | Inr i \<Rightarrow>
          if tp_head (thr_p s ! i) \<ge> last_tail s + Q
          then Inr (s\<lparr>prod := (prod s)(p := P_min x)\<rparr>)
          else Inr (s\<lparr>prod := (prod s)(p := P_write x)\<rparr>))"
| "push_step Q p (P_min x) s =
     Inr (s\<lparr>prod := (prod s)(p := P_scan x 0 (tail s))\<rparr>)"
| "push_step Q p (P_scan x i m) s =
     (if i < n_consumers s
      then (if i < length (thr_p s)
            then (let tmp_t = tp_tail (thr_p s ! i)
                  in Inr (s\<lparr>prod := (prod s)(p := P_scan x (i + 1) (if tmp_t < m then tmp_t else m))\<rparr>))
            else Inl OutOfBounds)
      else Inr (s\<lparr>last_tail := m, prod := (prod s)(p := P_chk x)\<rparr>))"
| "push_step Q p (P_write x) s =
     (case thr_pos s p of
        Inl e \<Rightarrow> Inl e
      | Inr i \<Rightarrow>
          Inr (s\<lparr>ptr_array := (ptr_array s)(unat (tp_head (thr_p s ! i) AND Q_MASK Q) := x),
                 prod := (prod s)(p := P_rel)\<rparr>))"
| "push_step Q p P_rel s =
     (case thr_pos s p of
        Inl e \<Rightarrow> Inl e
      | Inr i \<Rightarrow> Inr (s\<lparr>thr_p := set_tp_head i ULONG_MAX (thr_p s), prod := (prod s)(p := P_idle)\<rparr>))"

fun pop_step :: "ulong \<Rightarrow> nat \<Rightarrow> 'a cpc \<Rightarrow> 'a sys \<Rightarrow> error + 'a sys" where
  "pop_step Q c C_idle s = Inr s"
| "pop_step Q c C_load s =
     (case thr_pos s c of
        Inl e \<Rightarrow> Inl e
      | Inr i \<Rightarrow> Inr (s\<lparr>cons := (cons s)(c := C_pub (tail s))\<rparr>))"
| "pop_step Q c (C_pub t) s =
     (case thr_pos s c of
        Inl e \<Rightarrow> Inl e
      | Inr i \<Rightarrow> Inr (s\<lparr>thr_p := set_tp_tail i t (thr_p s), cons := (cons s)(c := C_faa)\<rparr>))"
| "pop_step Q c C_faa s =
     Inr (s\<lparr>tail := tail s + 1, cons := (cons s)(c := C_set (tail s))\<rparr>)"
| "pop_step Q c (C_set t) s =
     (case thr_pos s c of
        Inl e \<Rightarrow> Inl e
      | Inr i \<Rightarrow> Inr (s\<lparr>thr_p := set_tp_tail i t (thr_p s), cons := (cons s)(c := C_chk)\<rparr>))"
| "pop_step Q c C_chk s =
     (case thr_pos s c of
        Inl e \<Rightarrow> Inl e
      | Inr i \<Rightarrow>
          if tp_tail (thr_p s ! i) \<ge> last_head s
          then Inr (s\<lparr>cons := (cons s)(c := C_min)\<rparr>)
          else Inr (s\<lparr>cons := (cons s)(c := C_read)\<rparr>))"
| "pop_step Q c C_min s =
     Inr (s\<lparr>cons := (cons s)(c := C_scan 0 (head s))\<rparr>)"
| "pop_step Q c (C_scan i m) s =
     (if i < n_producers s
      then (if i < length (thr_p s)
            then (let tmp_h = tp_head (thr_p s ! i)
                  in Inr (s\<lparr>cons := (cons s)(c := C_scan (i + 1) (if tmp_h < m then tmp_h else m))\<rparr>))
            else Inl OutOfBounds)
      else Inr (s\<lparr>last_head := m, cons := (cons s)(c := C_chk)\<rparr>))"
| "pop_step Q c C_read s =
     (case thr_pos s c of
        Inl e \<Rightarrow> Inl e
      | Inr i \<Rightarrow>
          Inr (s\<lparr>cons := (cons s)(c := C_rel (ptr_array s (unat (tp_tail (thr_p s ! i) AND Q_MASK Q))))\<rparr>))"
| "pop_step Q c (C_rel ret) s =
     (case thr_pos s c of
        Inl e \<Rightarrow> Inl e
      | Inr i \<Rightarrow>
          Inr (s\<lparr>thr_p := set_tp_tail i ULONG_MAX (thr_p s), cons := (cons s)(c := C_idle),
                 popped := popped s @ [(c, ret)]\<rparr>))"

text \<open>
  What a scheduler can do: let an idle producer call \<open>push(x)\<close>, let an idle consumer call
  \<open>pop()\<close>, or let a thread take its next atomic step. A call by a thread that is inside
  an operation, and a step of an idle thread, leave the system as it is.
\<close>

datatype 'a event = Push nat 'a | PStep nat | Pop nat | CStep nat

fun step :: "ulong \<Rightarrow> 'a event \<Rightarrow> 'a sys \<Rightarrow> error + 'a sys" where
  "step Q (Push p x) s =
     (if prod s p = P_idle then Inr (s\<lparr>prod := (prod s)(p := P_load x)\<rparr>) else Inr s)"
| "step Q (PStep p) s = push_step Q p (prod s p) s"
| "step Q (Pop c) s =
     (if cons s c = C_idle then Inr (s\<lparr>cons := (cons s)(c := C_load)\<rparr>) else Inr s)"
| "step Q (CStep c) s = pop_step Q c (cons s c) s"

fun exec :: "ulong \<Rightarrow> 'a event list \<Rightarrow> 'a sys \<Rightarrow> error + 'a sys" where
  "exec Q [] s = Inr s"
| "exec Q (e # es) s = (case step Q e s of Inl err \<Rightarrow> Inl err | Inr s' \<Rightarrow> exec Q es s')"

text \<open>
  The configurations that the specification calls invalid: a capacity that is not a power
  of two, no producer, no consumer, or a failed allocation.
\<close>

definition invalid_configuration ::
  "ulong \<Rightarrow> ulong \<Rightarrow> ulong \<Rightarrow> bool \<Rightarrow> (nat \<Rightarrow> 'a) option \<Rightarrow> bool" where
  "invalid_configuration Q n_prod n_cons thr_p_alloc ptr_array_alloc =
     (\<not> is_pow2 Q \<or> n_prod = 0 \<or> n_cons = 0 \<or> \<not> thr_p_alloc \<or> ptr_array_alloc = None)"

subsection \<open>Schedules\<close>

text \<open>
  The thread index an event is about, and the events of the threads the queue was
  dimensioned for: producers \<open>0 .. N-1\<close> and consumers \<open>0 .. M-1\<close>.
\<close>

fun event_tid :: "'a event \<Rightarrow> nat" where
  "event_tid (Push p x) = p"
| "event_tid (PStep p) = p"
| "event_tid (Pop c) = c"
| "event_tid (CStep c) = c"

fun wf_event :: "nat \<Rightarrow> nat \<Rightarrow> 'a event \<Rightarrow> bool" where
  "wf_event N M (Push p x) = (p < N)"
| "wf_event N M (PStep p) = (p < N)"
| "wf_event N M (Pop c) = (c < M)"
| "wf_event N M (CStep c) = (c < M)"

subsection \<open>Invariants of the executions\<close>

text \<open>
  What a thread holds in its registers is bounded by the counter it was loaded from:
  a value loaded from \<open>head_\<close> (or the running minimum that started from it) is at most
  \<open>head_\<close>, and likewise for \<open>tail_\<close>.
\<close>

fun plocal_ok :: "ulong \<Rightarrow> ulong \<Rightarrow> 'a ppc \<Rightarrow> bool" where
  "plocal_ok hv tv (P_pub x h) = (h \<le> hv)"
| "plocal_ok hv tv (P_set x h) = (h < hv)"
| "plocal_ok hv tv (P_scan x i m) = (m \<le> tv)"
| "plocal_ok hv tv _ = True"

fun clocal_ok :: "ulong \<Rightarrow> ulong \<Rightarrow> 'a cpc \<Rightarrow> bool" where
  "clocal_ok hv tv (C_pub t) = (t \<le> tv)"
| "clocal_ok hv tv (C_set t) = (t < tv)"
| "clocal_ok hv tv (C_scan i m) = (m \<le> hv)"
| "clocal_ok hv tv _ = True"

definition reg_ok :: "ulong \<Rightarrow> ulong \<Rightarrow> ThrPos \<Rightarrow> bool" where
  "reg_ok hv tv e =
     ((tp_head e \<noteq> ULONG_MAX \<longrightarrow> tp_head e \<le> hv) \<and>
      (tp_tail e \<noteq> ULONG_MAX \<longrightarrow> tp_tail e \<le> tv))"

text \<open>
  \<open>inv_le n s\<close>: the state \<open>s\<close> of an execution of \<open>n\<close> steps. The counters have
  not wrapped around, the cached bounds and the registry entries that hold a position are
  at most the counters.
\<close>

definition inv_le :: "nat \<Rightarrow> 'a sys \<Rightarrow> bool" where
  "inv_le n s =
     (unat (head s) \<le> n \<and> unat (tail s) \<le> n \<and>
      last_head s \<le> head s \<and> last_tail s \<le> tail s \<and>
      list_all (reg_ok (head s) (tail s)) (thr_p s) \<and>
      (\<forall>p. plocal_ok (head s) (tail s) (prod s p)) \<and>
      (\<forall>c. clocal_ok (head s) (tail s) (cons s c)))"

subsection \<open>The fetch-and-add steps of an execution\<close>

text \<open>
  \<open>faa_head e s\<close>: the event \<open>e\<close>, taken in state \<open>s\<close>, is a producer executing
  \<open>__sync_fetch_and_add(&head_, 1)\<close>; \<open>faa_tail e s\<close>: it is a consumer executing
  \<open>__sync_fetch_and_add(&tail_, 1)\<close>. \<open>head_faas Q p es s\<close> counts the steps of the
  execution of \<open>es\<close> from \<open>s\<close> in which producer \<open>p\<close> does so, and \<open>tail_faas\<close>
  those of consumer \<open>c\<close>.
\<close>

fun faa_head :: "'a event \<Rightarrow> 'a sys \<Rightarrow> bool" where
  "faa_head (PStep p) s = (case prod s p of P_faa x \<Rightarrow> True | _ \<Rightarrow> False)"
| "faa_head _ s = False"

fun faa_tail :: "'a event \<Rightarrow> 'a sys \<Rightarrow> bool" where
  "faa_tail (CStep c) s = (case cons s c of C_faa \<Rightarrow> True | _ \<Rightarrow> False)"
| "faa_tail _ s = False"

fun head_faas :: "ulong \<Rightarrow> nat \<Rightarrow> 'a event list \<Rightarrow> 'a sys \<Rightarrow> nat" where
  "head_faas Q p [] s = 0"
| "head_faas Q p (e # es) s =
     (if event_tid e = p \<and> faa_head e s then 1 else 0) +
     (case step Q e s of Inl err \<Rightarrow> 0 | Inr s' \<Rightarrow> head_faas Q p es s')"

fun tail_faas :: "ulong \<Rightarrow> nat \<Rightarrow> 'a event list \<Rightarrow> 'a sys \<Rightarrow> nat" where
  "tail_faas Q c [] s = 0"
| "tail_faas Q c (e # es) s =
     (if event_tid e = c \<and> faa_tail e s then 1 else 0) +
     (case step Q e s of Inl err \<Rightarrow> 0 | Inr s' \<Rightarrow> tail_faas Q c es s')"

text \<open>The calls of \<open>push\<close> by producer \<open>p\<close>, and of \<open>pop\<close> by consumer \<open>c\<close>, in a schedule.\<close>

fun is_push_by :: "nat \<Rightarrow> 'a event \<Rightarrow> bool" where
  "is_push_by p (Push p' x) = (p' = p)"
| "is_push_by p _ = False"

fun is_pop_by :: "nat \<Rightarrow> 'a event \<Rightarrow> bool" where
  "is_pop_by c (Pop c') = (c' = c)"
| "is_pop_by c _ = False"

text \<open>How far a thread is in its operation: before, at, or after its fetch-and-add.\<close>

fun push_pos :: "'a ppc \<Rightarrow> nat" where
  "push_pos P_idle = 0"
| "push_pos (P_load x) = 1"
| "push_pos (P_pub x h) = 1"
| "push_pos (P_faa x) = 1"
| "push_pos _ = 2"

fun pop_pos :: "'a cpc \<Rightarrow> nat" where
  "pop_pos C_idle = 0"
| "pop_pos C_load = 1"
| "pop_pos (C_pub t) = 1"
| "pop_pos C_faa = 1"
| "pop_pos _ = 2"

subsection \<open>An example system\<close>

text \<open>
  The queue that \<open>LockFreeQueue<T, thr_id, 2> q(1, 2)\<close> constructs: one producer, two
  consumers, capacity 2, slots initially holding 0 (lemma \<open>ex_queue_new\<close>). It is the
  concrete system at which the theorems below are instantiated.
\<close>

definition ex_queue :: "nat lfq" where
  "ex_queue =
     \<lparr>n_producers = 1, n_consumers = 2, head = 0, tail = 0, last_head = 0, last_tail = 0,
      thr_p = [\<lparr>tp_head = ULONG_MAX, tp_tail = ULONG_MAX\<rparr>,
               \<lparr>tp_head = ULONG_MAX, tp_tail = ULONG_MAX\<rparr>],
      ptr_array = (\<lambda>_. 0)\<rparr>"

definition ex_naive :: "nat naive_queue" where
  "ex_naive = \<lparr>nq_head = 1, nq_tail = 0, nq_ptr_array = (\<lambda>_. 5)\<rparr>"

text \<open>
  Schedules and states of the example: a complete \<open>push(7)\<close> by producer 0 running
  alone, a complete \<open>pop()\<close> by a consumer running alone after it, and the states around
  the producer's fetch-and-add.
\<close>

definition ex_sys :: "nat sys" where
  "ex_sys = spawn ex_queue"

definition ex_push :: "nat event list" where
  "ex_push = Push 0 7 # replicate 7 (PStep 0)"

definition ex_pop :: "nat \<Rightarrow> nat event list" where
  "ex_pop c = Pop c # replicate 11 (CStep c)"

definition ex_at_faa :: "nat sys" where
  "ex_at_faa = projr (exec 2 [Push 0 7, PStep 0, PStep 0] ex_sys)"

definition ex_after_faa :: "nat sys" where
  "ex_after_faa = projr (step 2 (PStep 0) ex_at_faa)"

definition ex_pushed :: "nat sys" where
  "ex_pushed = projr (exec 2 ex_push ex_sys)"

definition ex_popped :: "nat sys" where
  "ex_popped = projr (exec 2 (ex_pop 0) ex_pushed)"

subsection \<open>The dimension of the registry\<close>

text \<open>The registry has the \<open>max(n_consumers_, n_producers_)\<close> entries the constructor allocated.\<close>

definition reg_dim :: "'a sys \<Rightarrow> bool" where
  "reg_dim s = (length (thr_p s) = max (n_consumers s) (n_producers s))"

subsection \<open>Reservations\<close>

text \<open>
  \<open>pwait s p\<close> is the position that producer \<open>p\<close> has fetched from \<open>head_\<close> and is
  still waiting for, from its fetch-and-add until it leaves the \<open>while\<close> loop: the
  value is in a register until it is stored, and in the thread's registry entry
  afterwards. \<open>cwait s c\<close> is the same for consumer \<open>c\<close> and \<open>tail_\<close>.
\<close>

fun pwait_of :: "'a ppc \<Rightarrow> ulong \<Rightarrow> ulong option" where
  "pwait_of (P_set x h) v = Some h"
| "pwait_of (P_chk x) v = Some v"
| "pwait_of (P_min x) v = Some v"
| "pwait_of (P_scan x i m) v = Some v"
| "pwait_of _ v = None"

definition pwait :: "'a sys \<Rightarrow> nat \<Rightarrow> ulong option" where
  "pwait s p = pwait_of (prod s p) (tp_head (thr_p s ! p))"

fun cwait_of :: "'a cpc \<Rightarrow> ulong \<Rightarrow> ulong option" where
  "cwait_of (C_set t) v = Some t"
| "cwait_of C_chk v = Some v"
| "cwait_of C_min v = Some v"
| "cwait_of (C_scan i m) v = Some v"
| "cwait_of _ v = None"

definition cwait :: "'a sys \<Rightarrow> nat \<Rightarrow> ulong option" where
  "cwait s c = cwait_of (cons s c) (tp_tail (thr_p s ! c))"

text \<open>
  \<open>inv_cover Q s\<close>: every position that has been fetched from \<open>head_\<close> and lies \<open>Q\<close> or
  more beyond \<open>tail_\<close> belongs to a producer that is still waiting, and every position
  that has been fetched from \<open>tail_\<close> and is not below \<open>head_\<close> belongs to a consumer
  that is still waiting.
\<close>

definition inv_cover :: "ulong \<Rightarrow> 'a sys \<Rightarrow> bool" where
  "inv_cover Q s =
     ((\<forall>r. unat (tail s) + unat Q \<le> unat r \<and> r < head s \<longrightarrow>
            (\<exists>p < n_producers s. pwait s p = Some r)) \<and>
      (\<forall>r. head s \<le> r \<and> r < tail s \<longrightarrow>
            (\<exists>c < n_consumers s. cwait s c = Some r)))"

text \<open>
  Claim C1 as the specification states it: \<open>head >= tail\<close>, and the number of live items
  \<open>head - tail\<close> is at most \<open>Q\<close>.
\<close>

definition live_items_ok :: "ulong \<Rightarrow> 'a sys \<Rightarrow> bool" where
  "live_items_ok Q s = (tail s \<le> head s \<and> head s - tail s \<le> Q)"

text \<open>
  Two further examples. \<open>ex_huge\<close> is what the constructor returns for \<open>q(2^60, 1)\<close>,
  where \<open>sizeof(ThrPos) * n\<close> wraps around to 0 (lemma \<open>ex_huge_new\<close>). \<open>ex_wrap\<close> is
  the example system after \<open>2^64 - 1\<close> pushes and pops, with producer 0 inside its next
  \<open>push(7)\<close>, about to execute the fetch-and-add; \<open>ex_wrapped\<close> is the state after it.
\<close>

definition ex_huge :: "nat lfq" where
  "ex_huge =
     \<lparr>n_producers = 1152921504606846976, n_consumers = 1, head = 0, tail = 0,
      last_head = 0, last_tail = 0, thr_p = [], ptr_array = (\<lambda>_. 0)\<rparr>"

definition ex_wrap :: "nat sys" where
  "ex_wrap =
     ex_sys\<lparr>head := ULONG_MAX, tail := ULONG_MAX, last_head := ULONG_MAX,
            last_tail := ULONG_MAX - 2, prod := (\<lambda>_. P_idle)(0 := P_faa 7)\<rparr>"

definition ex_wrapped :: "nat sys" where
  "ex_wrapped = projr (step 2 (PStep 0) ex_wrap)"

text \<open>
  Two executions of the example: a consumer calls \<open>pop\<close> on the empty queue and
  executes its fetch-and-add; and the producer completes two \<open>push\<close> calls, which fill
  the queue of capacity 2, calls \<open>push\<close> again and executes its fetch-and-add.
\<close>

definition ex_pop_first :: "nat event list" where
  "ex_pop_first = [Pop 0, CStep 0, CStep 0, CStep 0]"

definition ex_tail_ahead :: "nat sys" where
  "ex_tail_ahead = projr (exec 2 ex_pop_first ex_sys)"

definition ex_push_third :: "nat event list" where
  "ex_push_third = ex_push @ ex_push @ [Push 0 7, PStep 0, PStep 0, PStep 0]"

definition ex_head_ahead :: "nat sys" where
  "ex_head_ahead = projr (exec 2 ex_push_third ex_sys)"






subsection \<open>A single producer and a single consumer running one after the other\<close>







subsection \<open>The reservation protocol as the specification words it\<close>

text \<open>
  The description of \<open>push\<close> in the specification, written as one sequential function
  on the queue: (1) store the current \<open>head\<close> into the caller's registry entry, then the
  fence; (2) fetch-and-add 1 to \<open>head\<close> and store the prior value \<open>my_head\<close> into the
  entry; (3) while \<open>my_head >= last_tail + Q\<close>, yield and publish as \<open>last_tail\<close> the
  minimum of \<open>tail\<close> and all per-consumer registry tails, the sentinel being the largest
  value; (4) write \<open>x\<close> into \<open>slots[my_head & (Q - 1)]\<close>; (5) set the entry back to the
  sentinel. The loop is given \<open>k\<close> rounds; \<open>None\<close> means that the caller is still
  waiting after them.
\<close>

definition min_tail :: "('a, 'b) lfq_scheme \<Rightarrow> ulong" where
  "min_tail s = Min (insert (tail s) (tp_tail ` set (take (n_consumers s) (thr_p s))))"

definition min_head :: "('a, 'b) lfq_scheme \<Rightarrow> ulong" where
  "min_head s = Min (insert (head s) (tp_head ` set (take (n_producers s) (thr_p s))))"

fun push_wait_spec ::
  "nat \<Rightarrow> ulong \<Rightarrow> ulong \<Rightarrow> ('a, 'b) lfq_scheme \<Rightarrow> ('a, 'b) lfq_scheme option" where
  "push_wait_spec 0 Q my_head s = (if my_head \<ge> last_tail s + Q then None else Some s)"
| "push_wait_spec (Suc k) Q my_head s =
     (if my_head \<ge> last_tail s + Q
      then push_wait_spec k Q my_head (s\<lparr>last_tail := min_tail s\<rparr>)
      else Some s)"

definition push_spec ::
  "nat \<Rightarrow> ulong \<Rightarrow> nat \<Rightarrow> 'a \<Rightarrow> ('a, 'b) lfq_scheme \<Rightarrow> ('a, 'b) lfq_scheme option" where
  "push_spec k Q p x s =
     (let s1 = s\<lparr>thr_p := set_tp_head p (head s) (thr_p s)\<rparr>;
          my_head = head s1;
          s2 = s1\<lparr>head := head s1 + 1, thr_p := set_tp_head p my_head (thr_p s1)\<rparr>
      in case push_wait_spec k Q my_head s2 of
           None \<Rightarrow> None
         | Some s3 \<Rightarrow>
             Some (s3\<lparr>ptr_array := (ptr_array s3)(unat (my_head AND (Q - 1)) := x),
                      thr_p := set_tp_head p ULONG_MAX (thr_p s3)\<rparr>))"

text \<open>
  The description of \<open>pop\<close>, symmetric: (1) store the current \<open>tail\<close> into the caller's
  registry entry, then the fence; (2) fetch-and-add 1 to \<open>tail\<close> and store the prior value
  \<open>my_tail\<close> into the entry; (3) while \<open>my_tail >= last_head\<close>, yield and publish as
  \<open>last_head\<close> the minimum of \<open>head\<close> and all per-producer registry heads; (4) read
  \<open>x = slots[my_tail & (Q - 1)]\<close>; (5) set the entry to the sentinel and return \<open>x\<close>.
\<close>

fun pop_wait_spec ::
  "nat \<Rightarrow> ulong \<Rightarrow> ('a, 'b) lfq_scheme \<Rightarrow> ('a, 'b) lfq_scheme option" where
  "pop_wait_spec 0 my_tail s = (if my_tail \<ge> last_head s then None else Some s)"
| "pop_wait_spec (Suc k) my_tail s =
     (if my_tail \<ge> last_head s
      then pop_wait_spec k my_tail (s\<lparr>last_head := min_head s\<rparr>)
      else Some s)"

definition pop_spec ::
  "nat \<Rightarrow> ulong \<Rightarrow> nat \<Rightarrow> ('a, 'b) lfq_scheme \<Rightarrow> ('a \<times> ('a, 'b) lfq_scheme) option" where
  "pop_spec k Q c s =
     (let s1 = s\<lparr>thr_p := set_tp_tail c (tail s) (thr_p s)\<rparr>;
          my_tail = tail s1;
          s2 = s1\<lparr>tail := tail s1 + 1, thr_p := set_tp_tail c my_tail (thr_p s1)\<rparr>
      in case pop_wait_spec k my_tail s2 of
           None \<Rightarrow> None
         | Some s3 \<Rightarrow>
             Some (ptr_array s3 (unat (my_tail AND (Q - 1))),
                   s3\<lparr>thr_p := set_tp_tail c ULONG_MAX (thr_p s3)\<rparr>))"

text \<open>
  The number of steps that the thread takes in a \<open>push\<close> or \<open>pop\<close> with \<open>j\<close> rounds of
  the loop over a registry scan of \<open>m\<close> entries: seven steps outside the loop, and in
  each round the loop test, the load of the counter, \<open>m\<close> loads and the store.
\<close>

definition op_steps :: "nat \<Rightarrow> nat \<Rightarrow> nat" where
  "op_steps m j = 7 + j * (m + 3)"

text \<open>The running minimum of the \<open>for\<close> loop: \<open>if (tmp < min) min = tmp\<close>.\<close>

definition scan_min :: "ulong \<Rightarrow> ulong \<Rightarrow> ulong" where
  "scan_min m tmp = (if tmp < m then tmp else m)"

section \<open>Basic facts\<close>

lemma ULONG_MAX_unat: "unat ULONG_MAX = 2 ^ 64 - 1"
proof -
  have l: "LENGTH(64) = 64" by simp
  have "unat (- 1 :: ulong) = mask LENGTH(64)"
    by (rule unsigned_minus_1_eq_mask)
  also have "\<dots> = 2 ^ 64 - 1"
    unfolding l by (rule mask_eq_exp_minus_1)
  finally show ?thesis by (simp only: ULONG_MAX_def)
qed

lemma ULONG_MAX_top: "(w :: ulong) \<le> ULONG_MAX"
  by (simp add: ULONG_MAX_def)

lemma rcat_ff: "word_rcat [0xFF, 0xFF, 0xFF, 0xFF, 0xFF, 0xFF, 0xFF, 0xFF :: 8 word] = ULONG_MAX"
  by (simp add: word_rcat_def ULONG_MAX_def)

lemma replicate8: "replicate 8 c = [c, c, c, c, c, c, c, c]"
  by (simp add: numeral_eq_Suc)

lemma load_ff:
  assumes "off + 8 \<le> n"
  shows "load_ulong (memset 0xFF n) off = ULONG_MAX"
proof -
  have "min 8 (n - off) = 8" using assms by simp
  then have "take 8 (drop off (replicate n (0xFF :: 8 word))) = replicate 8 0xFF"
    by simp
  then show ?thesis
    by (simp add: load_ulong_def memset_def replicate8 rcat_ff)
qed

lemma ThrPos_at_memset:
  assumes "i < b div sizeof_ThrPos"
  shows "ThrPos_at (memset 0xFF b) i = \<lparr>tp_head = ULONG_MAX, tp_tail = ULONG_MAX\<rparr>"
proof -
  have "i < b div 16" using assms by (simp add: sizeof_ThrPos_def)
  then have "16 * i + 16 \<le> b" by simp
  then show ?thesis
    by (simp add: ThrPos_at_def sizeof_ThrPos_def load_ff)
qed

lemma new_registry:
  "map (ThrPos_at (memset 0xFF b)) [0..<b div sizeof_ThrPos]
     = replicate (b div sizeof_ThrPos) \<lparr>tp_head = ULONG_MAX, tp_tail = ULONG_MAX\<rparr>"
  by (rule nth_equalityI) (simp_all add: ThrPos_at_memset)

lemma reg_entries:
  assumes "unat n < 2 ^ 60"
  shows "reg_bytes n div sizeof_ThrPos = unat n"
proof -
  have "unat (16 :: ulong) * unat n < 2 ^ LENGTH(64)"
    using assms by simp
  then have "unat (16 * n) = unat (16 :: ulong) * unat n"
    by (simp only: unat_mult_lem)
  then show ?thesis
    by (simp add: reg_bytes_def sizeof_ThrPos_def)
qed

lemma unat_max: "unat (max a b :: ulong) = max (unat a) (unat b)"
  by (simp add: max_def word_le_nat_alt)

lemma slot_index_in_bounds:
  assumes "Q \<noteq> 0"
  shows "unat (h AND Q_MASK Q) < unat Q"
proof -
  have "h AND (Q - 1) \<le> Q - 1"
    by (rule word_and_le1)
  then have "unat (h AND (Q - 1)) \<le> unat (Q - 1)"
    by (simp only: word_le_nat_alt)
  moreover have "unat (Q - 1) = unat Q - 1"
    using assms by (rule unat_minus_one)
  moreover have "0 < unat Q"
    using assms by (simp add: unat_gt_0)
  ultimately show ?thesis
    by (simp add: Q_MASK_def)
qed

lemma naive_inv_new: "NaiveQueue_new a = Inr q \<Longrightarrow> naive_inv Q q"
  by (auto simp: NaiveQueue_new_def naive_inv_def split: option.splits)

lemma naive_inv_push: "naive_inv Q q \<Longrightarrow> naive_push Q x q = Some q' \<Longrightarrow> naive_inv Q q'"
  unfolding naive_inv_def naive_push_def
  apply (clarsimp split: if_splits)
  apply unat_arith
  done

lemma naive_inv_pop: "naive_inv Q q \<Longrightarrow> naive_pop Q q = Some (x, q') \<Longrightarrow> naive_inv Q q'"
  unfolding naive_inv_def naive_pop_def
  apply (clarsimp split: if_splits)
  apply unat_arith
  done

lemma naive_push_enabled_iff:
  assumes "naive_inv Q q" and nowrap: "unat (nq_tail q) + unat Q < 2 ^ 64"
  shows "(naive_push Q x q \<noteq> None) = (nq_head q - nq_tail q \<noteq> Q)"
proof -
  have le: "nq_tail q \<le> nq_head q" and ub: "unat (nq_head q) \<le> unat (nq_tail q) + unat Q"
    using assms(1) by (simp_all add: naive_inv_def)
  have s: "unat (nq_tail q + Q) = unat (nq_tail q) + unat Q"
    using nowrap unat_add_lem [of "nq_tail q" Q] by simp
  have d: "unat (nq_head q - nq_tail q) = unat (nq_head q) - unat (nq_tail q)"
    using le by (rule unat_sub)
  have "(nq_head q < nq_tail q + Q) = (unat (nq_head q) < unat (nq_tail q) + unat Q)"
    by (simp add: word_less_nat_alt s)
  also have "\<dots> = (unat (nq_head q) - unat (nq_tail q) \<noteq> unat Q)"
    using ub le by (auto simp: word_le_nat_alt)
  also have "\<dots> = (nq_head q - nq_tail q \<noteq> Q)"
    by (simp add: d [symmetric] word_unat_eq_iff)
  finally show ?thesis by (simp add: naive_push_def)
qed

lemma naive_pop_enabled_iff:
  "naive_inv Q q \<Longrightarrow> (naive_pop Q q \<noteq> None) = (nq_head q \<noteq> nq_tail q)"
  unfolding naive_inv_def naive_pop_def
  by (auto split: if_splits)


lemma not_pow2_3: "\<not> is_pow2 3"
proof
  assume "is_pow2 3"
  then obtain n where n: "(3 :: ulong) = 2 ^ n"
    by (auto simp: is_pow2_def)
  show False
  proof (cases n)
    case 0
    with n show False by simp
  next
    case (Suc m)
    then have "even ((2 :: ulong) ^ n)" by simp
    with n have "even (3 :: ulong)" by simp
    then show False by simp
  qed
qed

section \<open>Counters that have not wrapped around\<close>

lemma unat_succ:
  assumes "unat (a :: ulong) < 2 ^ 64 - 1"
  shows "unat (a + 1) = unat a + 1"
proof -
  have "unat a + unat (1 :: ulong) < 2 ^ LENGTH(64)"
    using assms by simp
  then have "unat (a + 1) = unat a + unat (1 :: ulong)"
    by (simp only: unat_add_lem)
  then show ?thesis by simp
qed

lemma le_succ: "unat (a :: ulong) < 2 ^ 64 - 1 \<Longrightarrow> x \<le> a \<Longrightarrow> x \<le> a + 1"
  by (simp add: word_le_nat_alt unat_succ)

lemma less_succ: "unat (a :: ulong) < 2 ^ 64 - 1 \<Longrightarrow> x \<le> a \<Longrightarrow> x < a + 1"
  by (simp add: word_le_nat_alt word_less_nat_alt unat_succ)

lemma less_succ2: "unat (a :: ulong) < 2 ^ 64 - 1 \<Longrightarrow> x < a \<Longrightarrow> x < a + 1"
  by (simp add: word_less_nat_alt unat_succ)

lemma self_less_succ: "unat (a :: ulong) < 2 ^ 64 - 1 \<Longrightarrow> a < a + 1"
  by (simp add: word_less_nat_alt unat_succ)

lemma reg_ok_mono:
  "unat (hv :: ulong) < 2 ^ 64 - 1 \<Longrightarrow> reg_ok hv tv e \<Longrightarrow> reg_ok (hv + 1) tv e"
  "unat (tv :: ulong) < 2 ^ 64 - 1 \<Longrightarrow> reg_ok hv tv e \<Longrightarrow> reg_ok hv (tv + 1) e"
  by (auto simp: reg_ok_def le_succ)

lemma plocal_ok_mono:
  "unat (hv :: ulong) < 2 ^ 64 - 1 \<Longrightarrow> plocal_ok hv tv pc \<Longrightarrow> plocal_ok (hv + 1) tv pc"
  "unat (tv :: ulong) < 2 ^ 64 - 1 \<Longrightarrow> plocal_ok hv tv pc \<Longrightarrow> plocal_ok hv (tv + 1) pc"
  by (cases pc; simp add: le_succ less_succ2)+

lemma clocal_ok_mono:
  "unat (hv :: ulong) < 2 ^ 64 - 1 \<Longrightarrow> clocal_ok hv tv pc \<Longrightarrow> clocal_ok (hv + 1) tv pc"
  "unat (tv :: ulong) < 2 ^ 64 - 1 \<Longrightarrow> clocal_ok hv tv pc \<Longrightarrow> clocal_ok hv (tv + 1) pc"
  by (cases pc; simp add: le_succ less_succ2)+

lemma thr_pos_Inr: "thr_pos s p = Inr i \<Longrightarrow> i = p \<and> p < length (thr_p s) \<and> p < max (n_consumers s) (n_producers s)"
  by (auto simp: thr_pos_def split: if_splits)

lemma inv_le_weaken: "inv_le n s \<Longrightarrow> unat (head s) < 2 ^ 64 - 1 \<or> n \<ge> 2 ^ 64 - 1"
  by (auto simp: inv_le_def)

lemma reg_ok_set_head:
  assumes "list_all (reg_ok hv tv) reg" and "i < length reg"
    and "v \<noteq> ULONG_MAX \<longrightarrow> v \<le> hv"
  shows "list_all (reg_ok hv tv) (set_tp_head i v reg)"
proof -
  have "reg_ok hv tv (reg ! i)"
    using assms(1,2) by (simp add: list_all_length)
  then have "reg_ok hv tv ((reg ! i)\<lparr>tp_head := v\<rparr>)"
    using assms(3) by (simp add: reg_ok_def)
  with assms(1,2) show ?thesis
    unfolding set_tp_head_def by (auto simp: list_all_length nth_list_update)
qed

lemma reg_ok_set_tail:
  assumes "list_all (reg_ok hv tv) reg" and "i < length reg"
    and "v \<noteq> ULONG_MAX \<longrightarrow> v \<le> tv"
  shows "list_all (reg_ok hv tv) (set_tp_tail i v reg)"
proof -
  have "reg_ok hv tv (reg ! i)"
    using assms(1,2) by (simp add: list_all_length)
  then have "reg_ok hv tv ((reg ! i)\<lparr>tp_tail := v\<rparr>)"
    using assms(3) by (simp add: reg_ok_def)
  with assms(1,2) show ?thesis
    unfolding set_tp_tail_def by (auto simp: list_all_length nth_list_update)
qed

lemma regs_ok_mono:
  "unat (hv :: ulong) < 2 ^ 64 - 1 \<Longrightarrow> list_all (reg_ok hv tv) reg \<Longrightarrow> list_all (reg_ok (hv + 1) tv) reg"
  "unat (tv :: ulong) < 2 ^ 64 - 1 \<Longrightarrow> list_all (reg_ok hv tv) reg \<Longrightarrow> list_all (reg_ok hv (tv + 1)) reg"
  by (simp_all add: list_all_length reg_ok_mono)

lemma length_set_tp [simp]:
  "length (set_tp_head i v reg) = length reg" "length (set_tp_tail i v reg) = length reg"
  by (simp_all add: set_tp_head_def set_tp_tail_def)

lemma inv_le_push_step:
  assumes inv: "inv_le n s" and n: "n < 2 ^ 64 - 1"
    and st: "push_step Q p (prod s p) s = Inr s'"
  shows "inv_le (Suc n) s'"
proof -
  have hb: "unat (head s) < 2 ^ 64 - 1" and tb: "unat (tail s) < 2 ^ 64 - 1"
    using inv n by (auto simp: inv_le_def)
  have pl: "\<And>q. plocal_ok (head s) (tail s) (prod s q)"
    and cl: "\<And>q. clocal_ok (head s) (tail s) (cons s q)"
    using inv by (auto simp: inv_le_def)
  note me = pl [of p]
  show ?thesis
  proof (cases "prod s p")
    case P_idle
    with st inv show ?thesis by (auto simp: inv_le_def)
  next
    case (P_load x)
    with st inv show ?thesis
      by (auto simp: inv_le_def dest!: thr_pos_Inr split: sum.splits)
  next
    case (P_pub x h)
    with st inv me show ?thesis
      by (auto simp: inv_le_def reg_ok_set_head less_imp_le dest!: thr_pos_Inr split: sum.splits)
  next
    case (P_faa x)
    with st inv hb show ?thesis
      by (auto simp: inv_le_def unat_succ le_succ self_less_succ regs_ok_mono plocal_ok_mono clocal_ok_mono)
  next
    case (P_set x h)
    with st inv me show ?thesis
      by (auto simp: inv_le_def reg_ok_set_head less_imp_le dest!: thr_pos_Inr split: sum.splits)
  next
    case (P_chk x)
    with st inv show ?thesis
      by (auto simp: inv_le_def dest!: thr_pos_Inr split: sum.splits if_splits)
  next
    case (P_min x)
    with st inv show ?thesis
      by (auto simp: inv_le_def)
  next
    case (P_scan x i m)
    with st inv me show ?thesis
      by (auto simp: inv_le_def Let_def split: if_splits)
  next
    case (P_write x)
    with st inv show ?thesis
      by (auto simp: inv_le_def dest!: thr_pos_Inr split: sum.splits)
  next
    case P_rel
    with st inv show ?thesis
      by (auto simp: inv_le_def reg_ok_set_head less_imp_le dest!: thr_pos_Inr split: sum.splits)
  qed
qed

lemma inv_le_pop_step:
  assumes inv: "inv_le n s" and n: "n < 2 ^ 64 - 1"
    and st: "pop_step Q p (cons s p) s = Inr s'"
  shows "inv_le (Suc n) s'"
proof -
  have hb: "unat (head s) < 2 ^ 64 - 1" and tb: "unat (tail s) < 2 ^ 64 - 1"
    using inv n by (auto simp: inv_le_def)
  have pl: "\<And>q. plocal_ok (head s) (tail s) (prod s q)"
    and cl: "\<And>q. clocal_ok (head s) (tail s) (cons s q)"
    using inv by (auto simp: inv_le_def)
  note me = cl [of p]
  show ?thesis
  proof (cases "cons s p")
    case C_idle
    with st inv show ?thesis by (auto simp: inv_le_def)
  next
    case C_load
    with st inv show ?thesis
      by (auto simp: inv_le_def dest!: thr_pos_Inr split: sum.splits)
  next
    case (C_pub h)
    with st inv me show ?thesis
      by (auto simp: inv_le_def reg_ok_set_tail less_imp_le dest!: thr_pos_Inr split: sum.splits)
  next
    case C_faa
    with st inv tb show ?thesis
      by (auto simp: inv_le_def unat_succ le_succ self_less_succ regs_ok_mono plocal_ok_mono clocal_ok_mono)
  next
    case (C_set h)
    with st inv me show ?thesis
      by (auto simp: inv_le_def reg_ok_set_tail less_imp_le dest!: thr_pos_Inr split: sum.splits)
  next
    case C_chk
    with st inv show ?thesis
      by (auto simp: inv_le_def dest!: thr_pos_Inr split: sum.splits if_splits)
  next
    case C_min
    with st inv show ?thesis
      by (auto simp: inv_le_def)
  next
    case (C_scan i m)
    with st inv me show ?thesis
      by (auto simp: inv_le_def Let_def split: if_splits)
  next
    case C_read
    with st inv show ?thesis
      by (auto simp: inv_le_def dest!: thr_pos_Inr split: sum.splits)
  next
    case (C_rel r)
    with st inv show ?thesis
      by (auto simp: inv_le_def reg_ok_set_tail less_imp_le dest!: thr_pos_Inr split: sum.splits)
  qed
qed


lemma inv_le_Suc: "inv_le n s \<Longrightarrow> inv_le (Suc n) s"
  by (simp add: inv_le_def)

lemma inv_le_step:
  assumes "inv_le n s" and "n < 2 ^ 64 - 1" and "step Q e s = Inr s'"
  shows "inv_le (Suc n) s'"
proof (cases e)
  case (Push p x)
  with assms(1,3) show ?thesis
    by (auto simp: inv_le_def split: if_splits)
next
  case (PStep p)
  with assms show ?thesis by (simp add: inv_le_push_step)
next
  case (Pop c)
  with assms(1,3) show ?thesis
    by (auto simp: inv_le_def split: if_splits)
next
  case (CStep c)
  with assms show ?thesis by (simp add: inv_le_pop_step)
qed

lemma inv_le_exec:
  "inv_le n s \<Longrightarrow> exec Q es s = Inr s' \<Longrightarrow> n + length es \<le> 2 ^ 64 - 1 \<Longrightarrow>
     inv_le (n + length es) s'"
proof (induction es arbitrary: n s)
  case Nil
  then show ?case by simp
next
  case (Cons e es)
  from Cons.prems(2) obtain s1 where s1: "step Q e s = Inr s1" and r: "exec Q es s1 = Inr s'"
    by (auto split: sum.splits)
  have "n < 2 ^ 64 - 1" using Cons.prems(3) by simp
  with Cons.prems(1) have "inv_le (Suc n) s1" using s1 by (rule inv_le_step)
  from Cons.IH [OF this r] Cons.prems(3) show ?case by simp
qed

lemma new_Inr:
  "LockFreeQueue_new N M a b = Inr q \<Longrightarrow>
     \<exists>mem. q = \<lparr>n_producers = unat N, n_consumers = unat M, head = 0, tail = 0,
          last_head = 0, last_tail = 0,
          thr_p = replicate (reg_bytes (max M N) div sizeof_ThrPos)
                    \<lparr>tp_head = ULONG_MAX, tp_tail = ULONG_MAX\<rparr>,
          ptr_array = mem\<rparr>"
  by (auto simp: LockFreeQueue_new_def Let_def new_registry split: if_splits option.splits)

lemma inv_le_init: "LockFreeQueue_new N M a b = Inr q \<Longrightarrow> inv_le 0 (spawn q)"
  by (auto dest!: new_Inr simp: inv_le_def spawn_def list_all_length reg_ok_def)

lemma inv_le_reachable:
  assumes "LockFreeQueue_new N M a b = Inr q" and "exec Q es (spawn q) = Inr s"
    and "length es \<le> 2 ^ 64 - 1"
  shows "inv_le (length es) s"
  using inv_le_exec [OF inv_le_init [OF assms(1)] assms(2)] assms(3) by simp

lemma push_step_counters:
  "push_step Q p pc s = Inr s' \<Longrightarrow>
     head s' = (case pc of P_faa x \<Rightarrow> head s + 1 | _ \<Rightarrow> head s) \<and> tail s' = tail s"
  by (cases pc) (auto split: sum.splits if_splits simp: Let_def)

lemma pop_step_counters:
  "pop_step Q c pc s = Inr s' \<Longrightarrow>
     tail s' = (case pc of C_faa \<Rightarrow> tail s + 1 | _ \<Rightarrow> tail s) \<and> head s' = head s"
  by (cases pc) (auto split: sum.splits if_splits simp: Let_def)

lemma step_counters:
  assumes "step Q e s = Inr s'"
  shows "head s' = (if faa_head e s then head s + 1 else head s)
       \<and> tail s' = (if faa_tail e s then tail s + 1 else tail s)"
proof (cases e)
  case (Push p x)
  with assms show ?thesis by (auto split: if_splits)
next
  case (PStep p)
  with assms push_step_counters [of Q p "prod s p" s s'] show ?thesis
    by (auto split: ppc.splits)
next
  case (Pop c)
  with assms show ?thesis by (auto split: if_splits)
next
  case (CStep c)
  with assms pop_step_counters [of Q c "cons s c" s s'] show ?thesis
    by (auto split: cpc.splits)
qed

lemma step_counters_mono:
  assumes "inv_le n s" and "n < 2 ^ 64 - 1" and "step Q e s = Inr s'"
  shows "head s \<le> head s' \<and> tail s \<le> tail s'"
proof -
  have "unat (head s) < 2 ^ 64 - 1" "unat (tail s) < 2 ^ 64 - 1"
    using assms(1,2) by (auto simp: inv_le_def)
  then have "head s \<le> head s + 1" "tail s \<le> tail s + 1"
    by (simp_all add: le_succ)
  with step_counters [OF assms(3)] show ?thesis by simp
qed

lemma exec_counters_mono:
  "inv_le n s \<Longrightarrow> exec Q es s = Inr s' \<Longrightarrow> n + length es \<le> 2 ^ 64 - 1 \<Longrightarrow>
     head s \<le> head s' \<and> tail s \<le> tail s'"
proof (induction es arbitrary: n s)
  case Nil
  then show ?case by simp
next
  case (Cons e es)
  from Cons.prems(2) obtain s1 where s1: "step Q e s = Inr s1" and r: "exec Q es s1 = Inr s'"
    by (auto split: sum.splits)
  have n: "n < 2 ^ 64 - 1" using Cons.prems(3) by simp
  with Cons.prems(1) have i1: "inv_le (Suc n) s1" using s1 by (rule inv_le_step)
  have a: "head s \<le> head s1 \<and> tail s \<le> tail s1"
    using Cons.prems(1) n s1 by (rule step_counters_mono)
  have b: "head s1 \<le> head s' \<and> tail s1 \<le> tail s'"
    using Cons.IH [OF i1 r] Cons.prems(3) by simp
  from a b show ?case by auto
qed

lemma step_other_prod:
  assumes "step Q e s = Inr s'" and "e \<noteq> PStep p" and "\<not> is_push_by p e"
  shows "prod s' p = prod s p"
proof (cases e)
  case (Push p' x)
  with assms show ?thesis by (auto split: if_splits)
next
  case (PStep p')
  with assms have ne: "p' \<noteq> p" and st: "push_step Q p' (prod s p') s = Inr s'" by auto
  from st ne show ?thesis
    by (cases "prod s p'") (auto split: sum.splits if_splits simp: Let_def)
next
  case (Pop c)
  with assms show ?thesis by (auto split: if_splits)
next
  case (CStep c)
  with assms have st: "pop_step Q c (cons s c) s = Inr s'" by auto
  then show ?thesis
    by (cases "cons s c") (auto split: sum.splits if_splits simp: Let_def)
qed

lemma step_other_cons:
  assumes "step Q e s = Inr s'" and "e \<noteq> CStep c" and "\<not> is_pop_by c e"
  shows "cons s' c = cons s c"
proof (cases e)
  case (Push p' x)
  with assms show ?thesis by (auto split: if_splits)
next
  case (CStep c')
  with assms have ne: "c' \<noteq> c" and st: "pop_step Q c' (cons s c') s = Inr s'" by auto
  from st ne show ?thesis
    by (cases "cons s c'") (auto split: sum.splits if_splits simp: Let_def)
next
  case (Pop c)
  with assms show ?thesis by (auto split: if_splits)
next
  case (PStep p)
  with assms have st: "push_step Q p (prod s p) s = Inr s'" by auto
  then show ?thesis
    by (cases "prod s p") (auto split: sum.splits if_splits simp: Let_def)
qed

lemma push_step_pos:
  assumes "push_step Q p (prod s p) s = Inr s'"
  shows "(if faa_head (PStep p) s then 1 else 0) + (if push_pos (prod s' p) = 1 then 1 else (0::nat))
           = (if push_pos (prod s p) = 1 then 1 else 0)"
  using assms
  by (cases "prod s p") (auto split: sum.splits if_splits simp: Let_def)

lemma pop_step_pos:
  assumes "pop_step Q c (cons s c) s = Inr s'"
  shows "(if faa_tail (CStep c) s then 1 else 0) + (if pop_pos (cons s' c) = 1 then 1 else (0::nat))
           = (if pop_pos (cons s c) = 1 then 1 else 0)"
  using assms
  by (cases "cons s c") (auto split: sum.splits if_splits simp: Let_def)

lemma head_faas_count:
  "exec Q es s = Inr s' \<Longrightarrow> list_all (\<lambda>e. \<not> is_push_by p e) es \<Longrightarrow> prod s' p = P_idle \<Longrightarrow>
     head_faas Q p es s = (if push_pos (prod s p) = 1 then 1 else 0)"
proof (induction es arbitrary: s)
  case Nil
  then show ?case by simp
next
  case (Cons e es)
  from Cons.prems(1) obtain s1 where s1: "step Q e s = Inr s1" and r: "exec Q es s1 = Inr s'"
    by (auto split: sum.splits)
  have np: "\<not> is_push_by p e" and rest: "list_all (\<lambda>e. \<not> is_push_by p e) es"
    using Cons.prems(2) by simp_all
  have ih: "head_faas Q p es s1 = (if push_pos (prod s1 p) = 1 then 1 else 0)"
    using Cons.IH [OF r rest Cons.prems(3)] .
  show ?case
  proof (cases "e = PStep p")
    case True
    with s1 have "push_step Q p (prod s p) s = Inr s1" by simp
    from push_step_pos [OF this] ih s1 True show ?thesis by simp
  next
    case False
    have same: "prod s1 p = prod s p" by (rule step_other_prod [OF s1 False np])
    have "\<not> (event_tid e = p \<and> faa_head e s)"
      using False by (cases e) auto
    with ih s1 same show ?thesis by simp
  qed
qed

lemma tail_faas_count:
  "exec Q es s = Inr s' \<Longrightarrow> list_all (\<lambda>e. \<not> is_pop_by c e) es \<Longrightarrow> cons s' c = C_idle \<Longrightarrow>
     tail_faas Q c es s = (if pop_pos (cons s c) = 1 then 1 else 0)"
proof (induction es arbitrary: s)
  case Nil
  then show ?case by simp
next
  case (Cons e es)
  from Cons.prems(1) obtain s1 where s1: "step Q e s = Inr s1" and r: "exec Q es s1 = Inr s'"
    by (auto split: sum.splits)
  have np: "\<not> is_pop_by c e" and rest: "list_all (\<lambda>e. \<not> is_pop_by c e) es"
    using Cons.prems(2) by simp_all
  have ih: "tail_faas Q c es s1 = (if pop_pos (cons s1 c) = 1 then 1 else 0)"
    using Cons.IH [OF r rest Cons.prems(3)] .
  show ?case
  proof (cases "e = CStep c")
    case True
    with s1 have "pop_step Q c (cons s c) s = Inr s1" by simp
    from pop_step_pos [OF this] ih s1 True show ?thesis by simp
  next
    case False
    have same: "cons s1 c = cons s c" by (rule step_other_cons [OF s1 False np])
    have "\<not> (event_tid e = c \<and> faa_tail e s)"
      using False by (cases e) auto
    with ih s1 same show ?thesis by simp
  qed
qed

lemma one_faa_per_push:
  assumes "prod s p = P_idle" and "exec Q (Push p x # es) s = Inr s'"
    and "list_all (\<lambda>e. \<not> is_push_by p e) es" and "prod s' p = P_idle"
  shows "head_faas Q p (Push p x # es) s = 1"
proof -
  let ?s1 = "s\<lparr>prod := (prod s)(p := P_load x)\<rparr>"
  have r: "exec Q es ?s1 = Inr s'" using assms(1,2) by simp
  from head_faas_count [OF r assms(3,4)] assms(1) show ?thesis by simp
qed

lemma one_faa_per_pop:
  assumes "cons s c = C_idle" and "exec Q (Pop c # es) s = Inr s'"
    and "list_all (\<lambda>e. \<not> is_pop_by c e) es" and "cons s' c = C_idle"
  shows "tail_faas Q c (Pop c # es) s = 1"
proof -
  let ?s1 = "s\<lparr>cons := (cons s)(c := C_load)\<rparr>"
  have r: "exec Q es ?s1 = Inr s'" using assms(1,2) by simp
  from tail_faas_count [OF r assms(3,4)] assms(1) show ?thesis by simp
qed

lemma naive_counters:
  "(naive_push Q x q = Some q' \<longrightarrow>
      nq_head q' = nq_head q + 1 \<and> nq_tail q' = nq_tail q \<and> nq_head q < nq_head q') \<and>
   (naive_pop Q q = Some (y, q'') \<longrightarrow>
      nq_tail q'' = nq_tail q + 1 \<and> nq_head q'' = nq_head q \<and> nq_tail q < nq_tail q'')"
proof -
  have lt: "a < a + 1" if "a < b" for a b :: ulong
  proof -
    have "unat b < 2 ^ 64" using unsigned_less [of b] by simp
    with that have "unat a < 2 ^ 64 - 1" by (simp add: word_less_nat_alt)
    then show ?thesis by (rule self_less_succ)
  qed
  have a: "nq_head q < nq_head q + 1" if "nq_head q < nq_tail q + Q"
    using that by (rule lt)
  have b: "nq_tail q < nq_tail q + 1" if "nq_tail q < nq_head q"
    using that by (rule lt)
  show ?thesis
    using a b by (auto simp: naive_push_def naive_pop_def split: if_splits)
qed

section \<open>The example system\<close>

lemma ex_queue_new: "LockFreeQueue_new 1 2 True (Some (\<lambda>_. 0)) = Inr ex_queue"
proof -
  have m: "max 2 1 = (2 :: ulong)" by simp
  have "unat (2 :: ulong) < 2 ^ 60" by simp
  then have r: "reg_bytes 2 div sizeof_ThrPos = 2"
    using reg_entries [of 2] by simp
  have two: "replicate 2 c = [c, c]" for c :: ThrPos
    by (simp add: numeral_2_eq_2)
  show ?thesis
    by (simp add: LockFreeQueue_new_def Let_def m r new_registry ex_queue_def two)
qed

lemma ex_huge_new:
  "LockFreeQueue_new 1152921504606846976 1 True (Some (\<lambda>_. 0)) = Inr ex_huge"
proof -
  have "(16 :: ulong) * 1152921504606846976 = 0" by simp
  then have "reg_bytes (max 1 1152921504606846976) = 0"
    by (simp add: reg_bytes_def sizeof_ThrPos_def)
  then show ?thesis
    by (simp add: LockFreeQueue_new_def Let_def ex_huge_def)
qed

lemma replicate7: "replicate 7 c = [c, c, c, c, c, c, c]"
  by (simp add: numeral_eq_Suc)

lemma replicate11: "replicate 11 c = [c, c, c, c, c, c, c, c, c, c, c]"
  by (simp add: numeral_eq_Suc)

lemmas ex_simps = ex_sys_def ex_queue_def spawn_def thr_pos_def set_tp_head_def set_tp_tail_def
  Q_MASK_def ex_push_def ex_pop_def replicate7 replicate11 ULONG_MAX_def Let_def

lemma ex_at_faa_run: "exec 2 [Push 0 7, PStep 0, PStep 0] ex_sys = Inr ex_at_faa"
  by (simp add: ex_at_faa_def ex_simps)

lemma ex_at_faa_obs:
  "head ex_at_faa = 0" "tail ex_at_faa = 0" "prod ex_at_faa 0 = P_faa 7"
  by (simp_all add: ex_at_faa_def ex_simps)

lemma ex_after_faa_run: "step 2 (PStep 0) ex_at_faa = Inr ex_after_faa"
  by (simp add: ex_after_faa_def ex_at_faa_obs)

lemma ex_after_faa_obs: "head ex_after_faa = 1" "tail ex_after_faa = 0"
  by (simp_all add: ex_after_faa_def ex_at_faa_obs)

lemma ex_pushed_run: "exec 2 ex_push ex_sys = Inr ex_pushed"
  by (simp add: ex_pushed_def ex_simps)

lemma ex_pushed_obs:
  "head ex_pushed = 1" "tail ex_pushed = 0" "prod ex_pushed 0 = P_idle" "cons ex_pushed 0 = C_idle"
  "ptr_array ex_pushed 0 = 7" "last_head ex_pushed = 0" "last_tail ex_pushed = 0"
  "thr_p ex_pushed = thr_p ex_queue" "n_producers ex_pushed = 1" "n_consumers ex_pushed = 2"
  by (simp_all add: ex_pushed_def ex_simps)

lemma ex_popped_run: "exec 2 (ex_pop 0) ex_pushed = Inr ex_popped"
  unfolding ex_popped_def ex_pushed_def
  by (simp add: ex_simps)

lemma ex_popped_obs:
  "head ex_popped = 1" "tail ex_popped = 1" "cons ex_popped 0 = C_idle" "popped ex_popped = [(0, 7)]"
  "last_head ex_popped = 1"
  unfolding ex_popped_def ex_pushed_def
  by (simp_all add: ex_simps)

section \<open>Registry accesses\<close>

lemma push_step_dim:
  assumes "reg_dim s" and "p < max (n_consumers s) (n_producers s)"
  shows "\<exists>s'. push_step Q p pc s = Inr s' \<and> reg_dim s'
          \<and> n_consumers s' = n_consumers s \<and> n_producers s' = n_producers s"
  using assms
  by (cases pc) (auto simp: reg_dim_def thr_pos_def Let_def)

lemma pop_step_dim:
  assumes "reg_dim s" and "c < max (n_consumers s) (n_producers s)"
  shows "\<exists>s'. pop_step Q c pc s = Inr s' \<and> reg_dim s'
          \<and> n_consumers s' = n_consumers s \<and> n_producers s' = n_producers s"
  using assms
  by (cases pc) (auto simp: reg_dim_def thr_pos_def Let_def)

lemma step_dim:
  assumes "reg_dim s" and "event_tid e < max (n_consumers s) (n_producers s)"
  shows "\<exists>s'. step Q e s = Inr s' \<and> reg_dim s'
          \<and> n_consumers s' = n_consumers s \<and> n_producers s' = n_producers s"
proof (cases e)
  case (Push p x)
  with assms show ?thesis by (auto simp: reg_dim_def)
next
  case (PStep p)
  with assms push_step_dim [of s p Q "prod s p"] show ?thesis by simp
next
  case (Pop c)
  with assms show ?thesis by (auto simp: reg_dim_def)
next
  case (CStep c)
  with assms pop_step_dim [of s c Q "cons s c"] show ?thesis by simp
qed

lemma exec_dim:
  "reg_dim s \<Longrightarrow> list_all (\<lambda>e. event_tid e < max (n_consumers s) (n_producers s)) es \<Longrightarrow>
     \<exists>s'. exec Q es s = Inr s' \<and> reg_dim s'"
proof (induction es arbitrary: s)
  case Nil
  then show ?case by simp
next
  case (Cons e es)
  from Cons.prems have "event_tid e < max (n_consumers s) (n_producers s)" by simp
  from step_dim [OF Cons.prems(1) this, of Q] obtain s1 where
    s1: "step Q e s = Inr s1" "reg_dim s1" "n_consumers s1 = n_consumers s"
        "n_producers s1 = n_producers s"
    by blast
  have "list_all (\<lambda>e. event_tid e < max (n_consumers s1) (n_producers s1)) es"
    using Cons.prems(2) s1 by simp
  from Cons.IH [OF s1(2) this] s1(1) show ?case by simp
qed

lemma reg_dim_init:
  "unat (max N M) < 2 ^ 60 \<Longrightarrow> LockFreeQueue_new N M a b = Inr q \<Longrightarrow>
    reg_dim (spawn q) \<and> n_producers (spawn q) = unat N \<and> n_consumers (spawn q) = unat M"
  by (auto dest!: new_Inr simp: reg_dim_def spawn_def reg_entries max.commute unat_max)

lemma push_out_of_range:
  assumes "\<not> p < max (n_consumers s) (n_producers s)" and "prod s p = P_idle"
  shows "exec Q [Push p x, PStep p] s = Inl AssertionFailed"
  using assms by (simp add: thr_pos_def)

lemma pop_out_of_range:
  assumes "\<not> c < max (n_consumers s) (n_producers s)" and "cons s c = C_idle"
  shows "exec Q [Pop c, CStep c] s = Inl AssertionFailed"
  using assms by (simp add: thr_pos_def)

lemma nth_set_tp_head_tail [simp]:
  "tp_tail (set_tp_head i v reg ! j) = tp_tail (reg ! j)"
proof (cases "i < length reg \<and> j = i")
  case True
  then show ?thesis by (simp add: set_tp_head_def)
next
  case False
  then show ?thesis
    by (cases "i < length reg") (auto simp: set_tp_head_def nth_list_update list_update_beyond)
qed

lemma nth_set_tp_head_head [simp]:
  "i < length reg \<Longrightarrow> tp_head (set_tp_head i v reg ! j) = (if j = i then v else tp_head (reg ! j))"
  by (simp add: set_tp_head_def nth_list_update)

lemma nth_set_tp_tail_head [simp]:
  "tp_head (set_tp_tail i v reg ! j) = tp_head (reg ! j)"
proof (cases "i < length reg \<and> j = i")
  case True
  then show ?thesis by (simp add: set_tp_tail_def)
next
  case False
  then show ?thesis
    by (cases "i < length reg") (auto simp: set_tp_tail_def nth_list_update list_update_beyond)
qed

lemma nth_set_tp_tail_tail [simp]:
  "i < length reg \<Longrightarrow> tp_tail (set_tp_tail i v reg ! j) = (if j = i then v else tp_tail (reg ! j))"
  by (simp add: set_tp_tail_def nth_list_update)

lemma push_step_waits:
  assumes "push_step Q p (prod s p) s = Inr s'"
  shows "n_producers s' = n_producers s \<and> n_consumers s' = n_consumers s
     \<and> (\<forall>c. cwait s' c = cwait s c)
     \<and> (\<forall>q. q \<noteq> p \<longrightarrow> pwait s' q = pwait s q)
     \<and> pwait s' p =
         (case prod s p of
            P_faa x \<Rightarrow> Some (head s)
          | P_chk x \<Rightarrow> (if tp_head (thr_p s ! p) \<ge> last_tail s + Q then pwait s p else None)
          | _ \<Rightarrow> pwait s p)"
  using assms
  by (cases "prod s p")
     (auto simp: pwait_def cwait_def Let_def dest!: thr_pos_Inr split: sum.splits if_splits)

lemma pop_step_waits:
  assumes "pop_step Q c (cons s c) s = Inr s'"
  shows "n_producers s' = n_producers s \<and> n_consumers s' = n_consumers s
     \<and> (\<forall>p. pwait s' p = pwait s p)
     \<and> (\<forall>q. q \<noteq> c \<longrightarrow> cwait s' q = cwait s q)
     \<and> cwait s' c =
         (case cons s c of
            C_faa \<Rightarrow> Some (tail s)
          | C_chk \<Rightarrow> (if tp_tail (thr_p s ! c) \<ge> last_head s then cwait s c else None)
          | _ \<Rightarrow> cwait s c)"
  using assms
  by (cases "cons s c")
     (auto simp: pwait_def cwait_def Let_def dest!: thr_pos_Inr split: sum.splits if_splits)

lemma less_succ_cases:
  assumes "unat (a :: ulong) < 2 ^ 64 - 1" and "r < a + 1"
  shows "r < a \<or> r = a"
proof -
  have "unat r < unat a + 1"
    using assms by (simp add: word_less_nat_alt unat_succ)
  then have "unat r < unat a \<or> unat r = unat a" by auto
  then show ?thesis by (simp add: word_less_nat_alt word_unat_eq_iff)
qed

lemma succ_le_imp_le:
  assumes "unat (a :: ulong) < 2 ^ 64 - 1" and "a + 1 \<le> r"
  shows "a \<le> r"
  using assms by (simp add: word_le_nat_alt unat_succ)

lemma unat_add_le: "unat (a + b :: ulong) \<le> unat a + unat b"
  by (simp add: unat_word_ariths)

lemma inv_cover_cong:
  assumes "inv_cover Q s" and "head s' = head s" and "tail s' = tail s"
    and "n_producers s' = n_producers s" and "n_consumers s' = n_consumers s"
    and "\<And>q. pwait s' q = pwait s q" and "\<And>c. cwait s' c = cwait s c"
  shows "inv_cover Q s'"
  using assms by (simp add: inv_cover_def)

lemma cover_push_step:
  assumes il: "inv_le n s" and n: "n < 2 ^ 64 - 1" and ic: "inv_cover Q s"
    and pN: "p < n_producers s" and st: "push_step Q p (prod s p) s = Inr s'"
  shows "inv_cover Q s'"
proof -
  note W = push_step_waits [OF st]
  note C = push_step_counters [OF st]
  have hb: "unat (head s) < 2 ^ 64 - 1"
    using il n by (auto simp: inv_le_def)
  have lt: "last_tail s \<le> tail s"
    using il by (simp add: inv_le_def)
  have same: "inv_cover Q s'" if "head s' = head s" and "pwait s' p = pwait s p"
  proof (rule inv_cover_cong [OF ic that(1)])
    show "tail s' = tail s" "n_producers s' = n_producers s" "n_consumers s' = n_consumers s"
      using W C by simp_all
    show "pwait s' q = pwait s q" for q
      using W that(2) by (cases "q = p") simp_all
    show "cwait s' c = cwait s c" for c
      using W by simp
  qed
  have other: "inv_cover Q s'" if "\<forall>x. prod s p \<noteq> P_faa x" and "\<forall>x. prod s p \<noteq> P_chk x"
  proof (rule same)
    show "head s' = head s" using C that by (cases "prod s p") simp_all
    show "pwait s' p = pwait s p" using W that by (cases "prod s p") simp_all
  qed
  show ?thesis
  proof (cases "prod s p")
    case (P_faa x)
    have h': "head s' = head s + 1" and t': "tail s' = tail s"
      using C P_faa by simp_all
    have me: "pwait s' p = Some (head s)" and none: "pwait s p = None"
      using W P_faa by (simp_all add: pwait_def)
    show ?thesis
      unfolding inv_cover_def
    proof (intro conjI allI impI)
      fix r assume a: "unat (tail s') + unat Q \<le> unat r \<and> r < head s'"
      then have "r < head s \<or> r = head s"
        using hb h' less_succ_cases by auto
      then show "\<exists>q<n_producers s'. pwait s' q = Some r"
      proof
        assume "r < head s"
        with a t' ic obtain q where q: "q < n_producers s" "pwait s q = Some r"
          unfolding inv_cover_def by auto
        with none have "q \<noteq> p" by auto
        with W q show ?thesis by auto
      next
        assume "r = head s"
        with me pN W show ?thesis by auto
      qed
    next
      fix r assume a: "head s' \<le> r \<and> r < tail s'"
      then have "head s \<le> r"
        using hb h' succ_le_imp_le by auto
      with a t' ic obtain c where "c < n_consumers s" "cwait s c = Some r"
        unfolding inv_cover_def by auto
      with W show "\<exists>c<n_consumers s'. cwait s' c = Some r" by auto
    qed
  next
    case (P_chk x)
    have h': "head s' = head s" and t': "tail s' = tail s"
      using C P_chk by simp_all
    show ?thesis
    proof (cases "tp_head (thr_p s ! p) \<ge> last_tail s + Q")
      case True
      with W P_chk have "pwait s' p = pwait s p" by simp
      with h' show ?thesis by (rule same)
    next
      case False
      have me: "pwait s p = Some (tp_head (thr_p s ! p))"
        using P_chk by (simp add: pwait_def)
      have small: "unat (tp_head (thr_p s ! p)) < unat (tail s) + unat Q"
      proof -
        have "unat (tp_head (thr_p s ! p)) < unat (last_tail s + Q)"
          using False by (simp add: word_le_nat_alt)
        also have "\<dots> \<le> unat (last_tail s) + unat Q" by (rule unat_add_le)
        also have "\<dots> \<le> unat (tail s) + unat Q"
          using lt by (simp add: word_le_nat_alt)
        finally show ?thesis .
      qed
      show ?thesis
        unfolding inv_cover_def
      proof (intro conjI allI impI)
        fix r assume a: "unat (tail s') + unat Q \<le> unat r \<and> r < head s'"
        with h' t' ic obtain q where q: "q < n_producers s" "pwait s q = Some r"
          unfolding inv_cover_def by auto
        have "q \<noteq> p"
        proof
          assume "q = p"
          with q me have "r = tp_head (thr_p s ! p)" by simp
          with small a t' show False by simp
        qed
        with W q show "\<exists>q<n_producers s'. pwait s' q = Some r" by auto
      next
        fix r assume a: "head s' \<le> r \<and> r < tail s'"
        with h' t' ic obtain c where "c < n_consumers s" "cwait s c = Some r"
          unfolding inv_cover_def by auto
        with W show "\<exists>c<n_consumers s'. cwait s' c = Some r" by auto
      qed
    qed
  qed (simp_all add: other)
qed


lemma cover_pop_step:
  assumes il: "inv_le n s" and n: "n < 2 ^ 64 - 1" and ic: "inv_cover Q s"
    and cM: "c < n_consumers s" and st: "pop_step Q c (cons s c) s = Inr s'"
  shows "inv_cover Q s'"
proof -
  note W = pop_step_waits [OF st]
  note C = pop_step_counters [OF st]
  have tb: "unat (tail s) < 2 ^ 64 - 1"
    using il n by (auto simp: inv_le_def)
  have lh: "last_head s \<le> head s"
    using il by (simp add: inv_le_def)
  have same: "inv_cover Q s'" if "tail s' = tail s" and "cwait s' c = cwait s c"
  proof (rule inv_cover_cong [OF ic _ that(1)])
    show "head s' = head s" "n_producers s' = n_producers s" "n_consumers s' = n_consumers s"
      using W C by simp_all
    show "cwait s' q = cwait s q" for q
      using W that(2) by (cases "q = c") simp_all
    show "pwait s' p = pwait s p" for p
      using W by simp
  qed
  have other: "inv_cover Q s'" if "cons s c \<noteq> C_faa" and "cons s c \<noteq> C_chk"
  proof (rule same)
    show "tail s' = tail s" using C that by (cases "cons s c") simp_all
    show "cwait s' c = cwait s c" using W that by (cases "cons s c") simp_all
  qed
  show ?thesis
  proof (cases "cons s c")
    case C_faa
    have t': "tail s' = tail s + 1" and h': "head s' = head s"
      using C C_faa by simp_all
    have ut: "unat (tail s') = unat (tail s) + 1"
      using t' tb by (simp add: unat_succ)
    have me: "cwait s' c = Some (tail s)" and none: "cwait s c = None"
      using W C_faa by (simp_all add: cwait_def)
    show ?thesis
      unfolding inv_cover_def
    proof (intro conjI allI impI)
      fix r assume a: "unat (tail s') + unat Q \<le> unat r \<and> r < head s'"
      with ut h' have "unat (tail s) + unat Q \<le> unat r \<and> r < head s" by simp
      with ic obtain q where "q < n_producers s" "pwait s q = Some r"
        unfolding inv_cover_def by auto
      with W show "\<exists>q<n_producers s'. pwait s' q = Some r" by auto
    next
      fix r assume a: "head s' \<le> r \<and> r < tail s'"
      then have "r < tail s \<or> r = tail s"
        using tb t' less_succ_cases by auto
      then show "\<exists>q<n_consumers s'. cwait s' q = Some r"
      proof
        assume "r < tail s"
        with a h' ic obtain q where q: "q < n_consumers s" "cwait s q = Some r"
          unfolding inv_cover_def by auto
        with none have "q \<noteq> c" by auto
        with W q show ?thesis by auto
      next
        assume "r = tail s"
        with me cM W show ?thesis by auto
      qed
    qed
  next
    case C_chk
    have h': "head s' = head s" and t': "tail s' = tail s"
      using C C_chk by simp_all
    show ?thesis
    proof (cases "tp_tail (thr_p s ! c) \<ge> last_head s")
      case True
      with W C_chk have "cwait s' c = cwait s c" by simp
      with t' show ?thesis by (rule same)
    next
      case False
      have me: "cwait s c = Some (tp_tail (thr_p s ! c))"
        using C_chk by (simp add: cwait_def)
      have small: "tp_tail (thr_p s ! c) < head s"
        using False lh by simp
      show ?thesis
        unfolding inv_cover_def
      proof (intro conjI allI impI)
        fix r assume a: "unat (tail s') + unat Q \<le> unat r \<and> r < head s'"
        with h' t' ic obtain q where "q < n_producers s" "pwait s q = Some r"
          unfolding inv_cover_def by auto
        with W show "\<exists>q<n_producers s'. pwait s' q = Some r" by auto
      next
        fix r assume a: "head s' \<le> r \<and> r < tail s'"
        with h' t' ic obtain q where q: "q < n_consumers s" "cwait s q = Some r"
          unfolding inv_cover_def by auto
        have "q \<noteq> c"
        proof
          assume "q = c"
          with q me have "r = tp_tail (thr_p s ! c)" by simp
          with small a h' show False
            by (auto simp: word_le_nat_alt word_less_nat_alt)
        qed
        with W q show "\<exists>q<n_consumers s'. cwait s' q = Some r" by auto
      qed
    qed
  qed (simp_all add: other)
qed

lemma cover_step:
  assumes "inv_le n s" and "n < 2 ^ 64 - 1" and "inv_cover Q s"
    and "wf_event (n_producers s) (n_consumers s) e" and "step Q e s = Inr s'"
  shows "inv_cover Q s'"
proof (cases e)
  case (Push p x)
  show ?thesis
  proof (cases "prod s p = P_idle")
    case True
    with Push assms(5) have s': "s' = s\<lparr>prod := (prod s)(p := P_load x)\<rparr>" by simp
    show ?thesis
      by (rule inv_cover_cong [OF assms(3)]) (simp_all add: s' pwait_def cwait_def True)
  next
    case False
    with Push assms(3,5) show ?thesis by simp
  qed
next
  case (PStep p)
  with assms show ?thesis by (auto intro: cover_push_step)
next
  case (Pop c)
  show ?thesis
  proof (cases "cons s c = C_idle")
    case True
    with Pop assms(5) have s': "s' = s\<lparr>cons := (cons s)(c := C_load)\<rparr>" by simp
    show ?thesis
      by (rule inv_cover_cong [OF assms(3)]) (simp_all add: s' pwait_def cwait_def True)
  next
    case False
    with Pop assms(3,5) show ?thesis by simp
  qed
next
  case (CStep c)
  with assms show ?thesis by (auto intro: cover_pop_step)
qed

lemma step_consts:
  assumes "step Q e s = Inr s'"
  shows "n_producers s' = n_producers s \<and> n_consumers s' = n_consumers s"
proof (cases e)
  case (Push p x)
  with assms show ?thesis by (auto split: if_splits)
next
  case (PStep p)
  with assms push_step_waits [of Q p s s'] show ?thesis by simp
next
  case (Pop c)
  with assms show ?thesis by (auto split: if_splits)
next
  case (CStep c)
  with assms pop_step_waits [of Q c s s'] show ?thesis by simp
qed

lemma cover_exec:
  "inv_le n s \<Longrightarrow> inv_cover Q s \<Longrightarrow> list_all (wf_event (n_producers s) (n_consumers s)) es \<Longrightarrow>
   exec Q es s = Inr s' \<Longrightarrow> n + length es \<le> 2 ^ 64 - 1 \<Longrightarrow>
     inv_cover Q s' \<and> n_producers s' = n_producers s \<and> n_consumers s' = n_consumers s"
proof (induction es arbitrary: n s)
  case Nil
  then show ?case by simp
next
  case (Cons e es)
  from Cons.prems(4) obtain s1 where s1: "step Q e s = Inr s1" and r: "exec Q es s1 = Inr s'"
    by (auto split: sum.splits)
  have n: "n < 2 ^ 64 - 1" using Cons.prems(5) by simp
  have wf: "wf_event (n_producers s) (n_consumers s) e" using Cons.prems(3) by simp
  have i1: "inv_le (Suc n) s1" using Cons.prems(1) n s1 by (rule inv_le_step)
  have c1: "inv_cover Q s1" using Cons.prems(1) n Cons.prems(2) wf s1 by (rule cover_step)
  note k = step_consts [OF s1]
  have wfs: "list_all (wf_event (n_producers s1) (n_consumers s1)) es"
    using Cons.prems(3) k by simp
  have "Suc n + length es \<le> 2 ^ 64 - 1" using Cons.prems(5) by simp
  from Cons.IH [OF i1 c1 wfs r this] k show ?case by simp
qed

lemma inv_cover_init: "LockFreeQueue_new N M a b = Inr q \<Longrightarrow> inv_cover Q (spawn q)"
  by (auto dest!: new_Inr simp: inv_cover_def spawn_def)

lemma unat_word_of_nat_small:
  assumes "k < 2 ^ 64"
  shows "unat (word_of_nat k :: ulong) = k"
proof -
  have "unat (word_of_nat k :: ulong) = k mod 2 ^ LENGTH(64)"
    by (rule unat_of_nat)
  also have "\<dots> = k" using assms by simp
  finally show ?thesis .
qed

lemma card_word_interval:
  assumes "b < (2::nat) ^ 64"
  shows "card ((word_of_nat :: nat \<Rightarrow> ulong) ` {a..<b}) = b - a"
proof -
  have "inj_on (word_of_nat :: nat \<Rightarrow> ulong) {a..<b}"
  proof (rule inj_onI)
    fix x y assume x: "x \<in> {a..<b}" and y: "y \<in> {a..<b}"
      and e: "(word_of_nat x :: ulong) = word_of_nat y"
    have "x < 2 ^ 64" using x assms by auto
    then have ux: "unat (word_of_nat x :: ulong) = x" by (rule unat_word_of_nat_small)
    have "y < 2 ^ 64" using y assms by auto
    then have uy: "unat (word_of_nat y :: ulong) = y" by (rule unat_word_of_nat_small)
    have "unat (word_of_nat x :: ulong) = unat (word_of_nat y :: ulong)"
      using e by (rule arg_cong)
    then show "x = y" unfolding ux uy .
  qed
  then have "card ((word_of_nat :: nat \<Rightarrow> ulong) ` {a..<b}) = card {a..<b}"
    by (rule card_image)
  then show ?thesis by simp
qed

lemma cover_bound_head:
  assumes "inv_cover Q s"
  shows "unat (head s) \<le> unat (tail s) + unat Q + n_producers s"
proof -
  let ?a = "unat (tail s) + unat Q"
  let ?b = "unat (head s)"
  let ?R = "(word_of_nat :: nat \<Rightarrow> ulong) ` {?a..<?b}"
  let ?f = "\<lambda>p. the (pwait s p)"
  have b: "?b < 2 ^ 64" using unsigned_less [of "head s"] by simp
  have sub: "?R \<subseteq> ?f ` {..<n_producers s}"
  proof
    fix r assume "r \<in> ?R"
    then obtain k where k: "r = word_of_nat k" "?a \<le> k" "k < ?b" by auto
    have "k < 2 ^ 64" using k(3) b by simp
    then have u: "unat r = k" unfolding k(1) by (rule unat_word_of_nat_small)
    have "r < head s" using u k(3) by (simp only: word_less_nat_alt)
    moreover have "?a \<le> unat r" using u k(2) by simp
    ultimately obtain p where p: "p < n_producers s" "pwait s p = Some r"
      using assms unfolding inv_cover_def by blast
    have "r = ?f p" using p(2) by simp
    moreover have "p \<in> {..<n_producers s}" using p(1) by simp
    ultimately show "r \<in> ?f ` {..<n_producers s}" by (rule image_eqI)
  qed
  have fin: "finite (?f ` {..<n_producers s})" by simp
  have "card ?R \<le> card (?f ` {..<n_producers s})"
    using fin sub by (rule card_mono)
  also have "\<dots> \<le> card {..<n_producers s}" by (rule card_image_le) simp
  also have "\<dots> = n_producers s" by simp
  finally have "card ?R \<le> n_producers s" .
  moreover have "card ?R = ?b - ?a" using b by (rule card_word_interval)
  ultimately have "?b - ?a \<le> n_producers s" by simp
  then show ?thesis by linarith
qed

lemma cover_bound_tail:
  assumes "inv_cover Q s"
  shows "unat (tail s) \<le> unat (head s) + n_consumers s"
proof -
  let ?a = "unat (head s)"
  let ?b = "unat (tail s)"
  let ?R = "(word_of_nat :: nat \<Rightarrow> ulong) ` {?a..<?b}"
  let ?f = "\<lambda>c. the (cwait s c)"
  have b: "?b < 2 ^ 64" using unsigned_less [of "tail s"] by simp
  have sub: "?R \<subseteq> ?f ` {..<n_consumers s}"
  proof
    fix r assume "r \<in> ?R"
    then obtain k where k: "r = word_of_nat k" "?a \<le> k" "k < ?b" by auto
    have "k < 2 ^ 64" using k(3) b by simp
    then have u: "unat r = k" unfolding k(1) by (rule unat_word_of_nat_small)
    have "r < tail s" using u k(3) by (simp only: word_less_nat_alt)
    moreover have "head s \<le> r" using u k(2) by (simp only: word_le_nat_alt)
    ultimately obtain c where c: "c < n_consumers s" "cwait s c = Some r"
      using assms unfolding inv_cover_def by blast
    have "r = ?f c" using c(2) by simp
    moreover have "c \<in> {..<n_consumers s}" using c(1) by simp
    ultimately show "r \<in> ?f ` {..<n_consumers s}" by (rule image_eqI)
  qed
  have fin: "finite (?f ` {..<n_consumers s})" by simp
  have "card ?R \<le> card (?f ` {..<n_consumers s})"
    using fin sub by (rule card_mono)
  also have "\<dots> \<le> card {..<n_consumers s}" by (rule card_image_le) simp
  also have "\<dots> = n_consumers s" by simp
  finally have "card ?R \<le> n_consumers s" .
  moreover have "card ?R = ?b - ?a" using b by (rule card_word_interval)
  ultimately have "?b - ?a \<le> n_consumers s" by simp
  then show ?thesis by linarith
qed

lemma spawn_counts:
  "LockFreeQueue_new N M a b = Inr q \<Longrightarrow>
     n_producers (spawn q) = unat N \<and> n_consumers (spawn q) = unat M"
  by (auto dest!: new_Inr simp: spawn_def)

lemma ex_tail_ahead_run: "exec 2 ex_pop_first ex_sys = Inr ex_tail_ahead"
  by (simp add: ex_tail_ahead_def ex_pop_first_def ex_simps)

lemma ex_tail_ahead_obs: "head ex_tail_ahead = 0" "tail ex_tail_ahead = 1"
  by (simp_all add: ex_tail_ahead_def ex_pop_first_def ex_simps)

lemma not_2_le_1: "\<not> (2 :: ulong) \<le> 1"
  by (simp add: word_le_nat_alt)

lemma ex_head_ahead_run: "exec 2 ex_push_third ex_sys = Inr ex_head_ahead"
  by (simp add: ex_head_ahead_def ex_push_third_def ex_simps not_2_le_1)

lemma ex_head_ahead_obs: "head ex_head_ahead = 3" "tail ex_head_ahead = 0"
  by (simp_all add: ex_head_ahead_def ex_push_third_def ex_simps not_2_le_1)

















lemma exec_append:
  "exec Q (es @ es') s = (case exec Q es s of Inl e \<Rightarrow> Inl e | Inr s1 \<Rightarrow> exec Q es' s1)"
  by (induction es arbitrary: s) (auto split: sum.splits)











lemma exec_replicate_add:
  "exec Q (replicate (a + b) e) s
     = (case exec Q (replicate a e) s of Inl err \<Rightarrow> Inl err | Inr s1 \<Rightarrow> exec Q (replicate b e) s1)"
  by (simp add: replicate_add exec_append)

lemma foldl_scan_min: "foldl scan_min m ts = Min (insert m (set ts))"
proof (induction ts arbitrary: m)
  case Nil
  then show ?case by simp
next
  case (Cons t ts)
  have "scan_min m t = min m t" by (auto simp: scan_min_def min_def)
  then have "foldl scan_min m (t # ts) = Min (insert (min m t) (set ts))"
    using Cons.IH by simp
  also have "\<dots> = Min (insert m (insert t (set ts)))"
  proof (cases "set ts = {}")
    case True
    then show ?thesis by (simp add: min.commute)
  next
    case False
    then show ?thesis by (simp add: min.assoc)
  qed
  finally show ?case by simp
qed

lemma push_scan_run:
  "prod s p = P_scan x i m \<Longrightarrow> i + d = n_consumers s \<Longrightarrow> n_consumers s \<le> length (thr_p s) \<Longrightarrow>
    exec Q (replicate d (PStep p)) s
      = Inr (s\<lparr>prod := (prod s)(p := P_scan x (n_consumers s)
                 (foldl scan_min m (map tp_tail (drop i (take (n_consumers s) (thr_p s))))))\<rparr>)"
proof (induction d arbitrary: s i m)
  case 0
  then show ?case by (simp add: fun_upd_idem)
next
  case (Suc d)
  let ?m' = "scan_min m (tp_tail (thr_p s ! i))"
  let ?s1 = "s\<lparr>prod := (prod s)(p := P_scan x (Suc i) ?m')\<rparr>"
  have i: "i < n_consumers s" "i < length (thr_p s)" using Suc.prems by simp_all
  have st: "step Q (PStep p) s = Inr ?s1"
    using Suc.prems(1) i by (simp add: scan_min_def Let_def)
  have ih: "exec Q (replicate d (PStep p)) ?s1
      = Inr (?s1\<lparr>prod := (prod ?s1)(p := P_scan x (n_consumers ?s1)
                 (foldl scan_min ?m' (map tp_tail (drop (Suc i) (take (n_consumers ?s1) (thr_p ?s1))))))\<rparr>)"
    using Suc.prems by (intro Suc.IH) simp_all
  have dr: "drop i (take (n_consumers s) (thr_p s))
      = thr_p s ! i # drop (Suc i) (take (n_consumers s) (thr_p s))"
    using i by (simp add: Cons_nth_drop_Suc [symmetric])
  have fo: "foldl scan_min m (map tp_tail (drop i (take (n_consumers s) (thr_p s))))
      = foldl scan_min ?m' (map tp_tail (drop (Suc i) (take (n_consumers s) (thr_p s))))"
    unfolding dr by simp
  have "exec Q (replicate (Suc d) (PStep p)) s = exec Q (replicate d (PStep p)) ?s1"
    using st by simp
  also have "\<dots> = Inr (?s1\<lparr>prod := (prod ?s1)(p := P_scan x (n_consumers ?s1)
                 (foldl scan_min ?m' (map tp_tail (drop (Suc i) (take (n_consumers ?s1) (thr_p ?s1))))))\<rparr>)"
    by (rule ih)
  also have "\<dots> = Inr (s\<lparr>prod := (prod s)(p := P_scan x (n_consumers s)
                 (foldl scan_min m (map tp_tail (drop i (take (n_consumers s) (thr_p s))))))\<rparr>)"
    unfolding fo by simp
  finally show ?case .
qed

section \<open>Construction\<close>

text \<open>
  Claim C10, as the specification states it: after construction every registry entry
  \<open>reg[i]\<close> for \<open>i < max(N, M)\<close> holds \<open>ULONG_MAX\<close> in both fields. The
  constructor computes the size of the registry as the \<open>size_t\<close> product
  \<open>sizeof(ThrPos) * n\<close>; for \<open>q(2^60, 1)\<close> the product wraps around to 0, construction
  succeeds, and the registry block holds no entry at all.
\<close>

theorem constructed_registry_truncated:
  "LockFreeQueue_new 1152921504606846976 1 True (Some (\<lambda>_. 0)) = Inr ex_huge
   \<and> 0 < max (n_producers ex_huge) (n_consumers ex_huge)
   \<and> length (thr_p ex_huge) = 0"
  using ex_huge_new by (simp add: ex_huge_def)

text \<open>
  Claim C10, amended: when \<open>max(N, M) < 2^60\<close>, so that \<open>sizeof(ThrPos) * max(N, M)\<close>
  does not wrap around, a queue that \<open>LockFreeQueue(n_producers, n_consumers)\<close> has
  constructed has \<open>head_ = tail_ = last_head_ = last_tail_ = 0\<close>, a registry of
  \<open>max(N, M)\<close> entries, and in every entry both fields equal to \<open>ULONG_MAX\<close>, the
  largest unsigned value; the \<open>0xFF\<close> bytes written by \<open>memset\<close> read back as that
  value. No thread is inside an operation.
\<close>

theorem constructed_state:
  assumes "LockFreeQueue_new N M thr_p_alloc ptr_array_alloc = Inr q"
    and "unat (max N M) < 2 ^ 60"
  shows "head q = 0 \<and> tail q = 0 \<and> last_head q = 0 \<and> last_tail q = 0
         \<and> n_producers q = unat N \<and> n_consumers q = unat M
         \<and> length (thr_p q) = unat (max N M)
         \<and> (\<forall>i < unat (max N M).
               tp_head (thr_p q ! i) = ULONG_MAX \<and> tp_tail (thr_p q ! i) = ULONG_MAX)
         \<and> unat ULONG_MAX = 2 ^ 64 - 1 \<and> (\<forall>w :: ulong. w \<le> ULONG_MAX)
         \<and> (\<forall>p. prod (spawn q) p = P_idle) \<and> (\<forall>c. cons (spawn q) c = C_idle)"
proof -
  have "reg_bytes (max M N) div sizeof_ThrPos = unat (max N M)"
    using assms(2) by (simp add: reg_entries max.commute)
  with new_Inr [OF assms(1)] show ?thesis
    by (auto simp: spawn_def ULONG_MAX_unat ULONG_MAX_top)
qed

theorem constructed_state_witness:
  "LockFreeQueue_new 1 2 True (Some (\<lambda>_. 0)) = Inr ex_queue
   \<and> head ex_queue = 0 \<and> tail ex_queue = 0 \<and> last_head ex_queue = 0 \<and> last_tail ex_queue = 0
   \<and> length (thr_p ex_queue) = 2
   \<and> tp_head (thr_p ex_queue ! 1) = ULONG_MAX
   \<and> tp_tail (thr_p ex_queue ! 1) = ULONG_MAX
   \<and> unat ULONG_MAX = 2 ^ 64 - 1"
proof -
  have b: "unat (max 1 2 :: ulong) < 2 ^ 60" by simp
  have m: "unat (max 1 2 :: ulong) = 2" by simp
  note T = constructed_state [OF ex_queue_new b]
  have "(1::nat) < unat (max 1 2 :: ulong)" using m by simp
  with T have "tp_head (thr_p ex_queue ! 1) = ULONG_MAX \<and> tp_tail (thr_p ex_queue ! 1) = ULONG_MAX"
    by blast
  with T m ex_queue_new show ?thesis by simp
qed

text \<open>
  Claim C8, as the specification states it: construction fails exactly when the
  configuration is invalid (\<open>invalid_configuration\<close>). The constructor checks neither
  the capacity nor the thread counts: with capacity 3, and with no producer, it returns a
  queue.
\<close>

theorem construction_accepts_invalid_configuration:
  "invalid_configuration 3 1 1 True (Some (\<lambda>_. 0::nat))
   \<and> invalid_configuration 32768 0 1 True (Some (\<lambda>_. 0::nat))
   \<and> \<not> isl (LockFreeQueue_new 1 1 True (Some (\<lambda>_. 0::nat)))
   \<and> \<not> isl (LockFreeQueue_new 0 1 True (Some (\<lambda>_. 0::nat)))"
  using not_pow2_3
  by (simp add: invalid_configuration_def LockFreeQueue_new_def Let_def)

text \<open>
  Claim C8, amended: construction fails, by a failed assertion, exactly when one of the
  two allocations returns \<open>NULL\<close>; every other configuration is accepted.
\<close>

theorem construction_fails_iff:
  "isl (LockFreeQueue_new N M thr_p_alloc ptr_array_alloc)
     = (\<not> thr_p_alloc \<or> ptr_array_alloc = None)
   \<and> (isl (LockFreeQueue_new N M thr_p_alloc ptr_array_alloc) \<longrightarrow>
        LockFreeQueue_new N M thr_p_alloc ptr_array_alloc = Inl AssertionFailed)"
  by (auto simp: LockFreeQueue_new_def Let_def split: option.splits)

theorem construction_fails_iff_witness:
  "isl (LockFreeQueue_new 16 16 True (None :: (nat \<Rightarrow> nat) option))
   \<and> LockFreeQueue_new 16 16 True (None :: (nat \<Rightarrow> nat) option) = Inl AssertionFailed
   \<and> isl (LockFreeQueue_new 16 16 False (Some (\<lambda>_. 0::nat)))"
proof -
  have a: "isl (LockFreeQueue_new 16 16 True (None :: (nat \<Rightarrow> nat) option))"
    using construction_fails_iff [of 16 16 True "None :: (nat \<Rightarrow> nat) option"] by simp
  have b: "isl (LockFreeQueue_new 16 16 False (Some (\<lambda>_. 0::nat)))"
    using construction_fails_iff [of 16 16 False "Some (\<lambda>_. 0::nat)"] by simp
  have c: "LockFreeQueue_new 16 16 True (None :: (nat \<Rightarrow> nat) option) = Inl AssertionFailed"
    using a construction_fails_iff [of 16 16 True "None :: (nat \<Rightarrow> nat) option"] by blast
  show ?thesis using a b c by simp
qed

section \<open>The operations of the naive queue\<close>



section \<open>Monotone counters\<close>

text \<open>
  Claim C7, as the specification states it: no operation ever decreases \<open>head\<close> or
  \<open>tail\<close>. The counters are 64-bit and the fetch-and-add wraps around: in the state
  \<open>ex_wrap\<close>, where \<open>head_\<close> is \<open>ULONG_MAX\<close>, the fetch-and-add of the next
  \<open>push\<close> sets \<open>head_\<close> to 0.
\<close>

theorem counters_wrap_around:
  "step 2 (PStep 0) ex_wrap = Inr ex_wrapped
   \<and> head ex_wrap = ULONG_MAX
   \<and> head ex_wrapped = 0
   \<and> head ex_wrapped < head ex_wrap"
  by (simp add: ex_wrapped_def ex_wrap_def ex_sys_def spawn_def ex_queue_def ULONG_MAX_def
        word_gt_0)

text \<open>
  Claim C7, amended: the counters never decrease short of the 64-bit wrap-around. In the
  naive queue a \<open>push\<close> adds exactly one to \<open>head\<close> and leaves \<open>tail\<close>, a \<open>pop\<close> adds
  exactly one to \<open>tail\<close> and leaves \<open>head\<close>, and the new value is strictly larger (its
  wait predicates keep the counters from wrapping). In the lock-free queue the only steps
  that change a counter are the fetch-and-add of a \<open>push\<close>, which adds one to \<open>head\<close>
  modulo \<open>2^64\<close>, and the fetch-and-add of a \<open>pop\<close>, which adds one to \<open>tail\<close> modulo
  \<open>2^64\<close>; every call of \<open>push\<close> that returns, however it is interleaved with other
  threads, contains exactly one such step, and so does every \<open>pop\<close>; and along every
  execution of at most \<open>2^64 - 1\<close> steps from the constructed queue neither counter
  decreases.
\<close>

theorem counters_never_decrease:
  "(naive_push Q x q = Some q' \<longrightarrow>
      nq_head q' = nq_head q + 1 \<and> nq_tail q' = nq_tail q \<and> nq_head q < nq_head q') \<and>
   (naive_pop Q q = Some (y, q'') \<longrightarrow>
      nq_tail q'' = nq_tail q + 1 \<and> nq_head q'' = nq_head q \<and> nq_tail q < nq_tail q'') \<and>
   (step Q e s = Inr s' \<longrightarrow>
      head s' = (if faa_head e s then head s + 1 else head s) \<and>
      tail s' = (if faa_tail e s then tail s + 1 else tail s)) \<and>
   (prod sp p = P_idle \<and> exec Q (Push p v # esp) sp = Inr tp \<and>
      list_all (\<lambda>e. \<not> is_push_by p e) esp \<and> prod tp p = P_idle \<longrightarrow>
      head_faas Q p (Push p v # esp) sp = 1) \<and>
   (cons sc c = C_idle \<and> exec Q (Pop c # esc) sc = Inr tc \<and>
      list_all (\<lambda>e. \<not> is_pop_by c e) esc \<and> cons tc c = C_idle \<longrightarrow>
      tail_faas Q c (Pop c # esc) sc = 1) \<and>
   (LockFreeQueue_new N M a b = Inr q0 \<and> exec Q es0 (spawn q0) = Inr s0 \<and>
      exec Q es1 s0 = Inr s1 \<and> length es0 + length es1 \<le> 2 ^ 64 - 1 \<longrightarrow>
      head s0 \<le> head s1 \<and> tail s0 \<le> tail s1)"
proof -
  have mono: "head s0 \<le> head s1 \<and> tail s0 \<le> tail s1"
    if n: "LockFreeQueue_new N M a b = Inr q0" and e0: "exec Q es0 (spawn q0) = Inr s0"
      and e1: "exec Q es1 s0 = Inr s1" and len: "length es0 + length es1 \<le> 2 ^ 64 - 1"
  proof -
    have "inv_le (length es0) s0"
      using n e0 len by (intro inv_le_reachable) auto
    then show ?thesis using e1 len by (rule exec_counters_mono)
  qed
  show ?thesis
    using naive_counters [of Q x q q' y q''] step_counters [of Q e s s']
      one_faa_per_push [of sp p Q v esp tp] one_faa_per_pop [of sc c Q esc tc] mono
    by blast
qed




theorem counters_never_decrease_witness:
  "nq_head (the (naive_push 2 7 ex_naive)) = nq_head ex_naive + 1
   \<and> nq_tail (snd (the (naive_pop 2 ex_naive))) = nq_tail ex_naive + 1
   \<and> head ex_after_faa = head ex_at_faa + 1
   \<and> tail ex_after_faa = tail ex_at_faa
   \<and> head_faas 2 0 ex_push ex_sys = 1
   \<and> tail_faas 2 0 (ex_pop 0) ex_pushed = 1
   \<and> head ex_at_faa \<le> head ex_after_faa"
proof -
  let ?q1 = "\<lparr>nq_head = 2, nq_tail = 0, nq_ptr_array = (\<lambda>_. 5::nat)(1 := 7)\<rparr>"
  let ?q2 = "\<lparr>nq_head = 1, nq_tail = 1, nq_ptr_array = (\<lambda>_. 5::nat)\<rparr>"
  have n1: "naive_push 2 7 ex_naive = Some ?q1"
    by (simp add: naive_push_def ex_naive_def Q_MASK_def)
  have n2: "naive_pop 2 ex_naive = Some (5, ?q2)"
    by (simp add: naive_pop_def ex_naive_def Q_MASK_def)
  have f: "faa_head (PStep 0) ex_at_faa" "\<not> faa_tail (PStep 0) ex_at_faa"
    by (simp_all add: ex_at_faa_obs)
  have b': "exec 2 [PStep 0] ex_at_faa = Inr ex_after_faa"
    using ex_after_faa_run by simp
  have c: "exec 2 (Push 0 7 # replicate 7 (PStep 0)) ex_sys = Inr ex_pushed"
    using ex_pushed_run by (simp only: ex_push_def)
  have c1: "prod ex_sys 0 = P_idle"
    by (simp add: ex_sys_def spawn_def)
  have c2: "list_all (\<lambda>e. \<not> is_push_by 0 e) (replicate 7 (PStep 0 :: nat event))"
    by (simp add: list_all_length)
  have d: "exec 2 (Pop 0 # replicate 11 (CStep 0)) ex_pushed = Inr ex_popped"
    using ex_popped_run by (simp only: ex_pop_def)
  have d2: "list_all (\<lambda>e. \<not> is_pop_by 0 e) (replicate 11 (CStep 0 :: nat event))"
    by (simp add: list_all_length)
  have len: "length [Push 0 (7::nat), PStep 0, PStep 0] + length [PStep 0 :: nat event] \<le> 2 ^ 64 - 1"
    by simp
  have run0: "exec 2 [Push 0 7, PStep 0, PStep 0] (spawn ex_queue) = Inr ex_at_faa"
    using ex_at_faa_run by (simp only: ex_sys_def)
  note T = counters_never_decrease [where Q = 2 and x = 7 and q = ex_naive and q' = ?q1 and y = 5
      and q'' = ?q2 and e = "PStep 0" and s = ex_at_faa and s' = ex_after_faa
      and sp = ex_sys and p = 0 and v = 7 and esp = "replicate 7 (PStep 0)" and tp = ex_pushed
      and sc = ex_pushed and c = 0 and esc = "replicate 11 (CStep 0)" and tc = ex_popped
      and N = 1 and M = 2 and a = True and b = "Some (\<lambda>_. 0)" and ?q0.0 = ex_queue
      and ?es0.0 = "[Push 0 7, PStep 0, PStep 0]" and ?s0.0 = ex_at_faa and ?es1.0 = "[PStep 0]"
      and ?s1.0 = ex_after_faa]
  have r1: "nq_head ?q1 = nq_head ex_naive + 1 \<and> nq_tail ?q2 = nq_tail ex_naive + 1"
    using T n1 n2 by blast
  have r2: "head ex_after_faa = head ex_at_faa + 1 \<and> tail ex_after_faa = tail ex_at_faa"
    using T ex_after_faa_run f by simp
  have r3: "head_faas 2 0 (Push 0 7 # replicate 7 (PStep 0)) ex_sys = 1"
    using T c c1 c2 ex_pushed_obs(3) by blast
  have r4: "tail_faas 2 0 (Pop 0 # replicate 11 (CStep 0)) ex_pushed = 1"
    using T d d2 ex_pushed_obs(4) ex_popped_obs(3) by blast
  have r5: "head ex_at_faa \<le> head ex_after_faa"
    using T ex_queue_new run0 b' len by blast
  show ?thesis
    using r1 r2 r3 r4 r5 n1 n2 by (simp add: ex_push_def ex_pop_def)
qed

section \<open>Registry bounds\<close>

text \<open>
  Claim C9, as the specification states it: an index below \<open>max(N, M)\<close> makes every
  registry access of \<open>push\<close> and \<open>pop\<close> in bounds. For \<open>q(2^60, 1)\<close> the registry
  block is empty (the \<open>size_t\<close> product \<open>sizeof(ThrPos) * n\<close> wraps around to 0): the
  producer with index 0 passes the assertion of \<open>thr_pos()\<close>, and the entry it refers to
  is outside the block.
\<close>

theorem registry_access_out_of_bounds:
  "LockFreeQueue_new 1152921504606846976 1 True (Some (\<lambda>_. 0)) = Inr ex_huge
   \<and> 0 < max (n_consumers (spawn ex_huge)) (n_producers (spawn ex_huge))
   \<and> exec 2 [Push 0 7, PStep 0] (spawn ex_huge) = Inl OutOfBounds"
  using ex_huge_new by (simp add: ex_huge_def spawn_def thr_pos_def)

text \<open>
  Claim C9, amended: when \<open>max(N, M) < 2^60\<close>, so that the registry has its
  \<open>max(N, M)\<close> entries, and every thread that calls \<open>push\<close> or \<open>pop\<close> has an index
  below \<open>max(N, M)\<close>, no execution from the constructed queue fails: the assertion in
  \<open>thr_pos()\<close> holds at every call and every registry access, by \<open>thr_pos()\<close> and by
  the scans over \<open>thr_p_[i]\<close>, is inside the allocated registry. A thread whose index is
  not below \<open>max(N, M)\<close> fails that assertion at the first statement of its \<open>push\<close>
  or \<open>pop\<close>.
\<close>

theorem registry_access_in_bounds:
  "(LockFreeQueue_new N M a b = Inr q \<and> unat (max N M) < 2 ^ 60 \<and>
      list_all (\<lambda>e. event_tid e < unat (max N M)) es \<longrightarrow>
      \<not> isl (exec Q es (spawn q))) \<and>
   (\<not> p < max (n_consumers s) (n_producers s) \<and> prod s p = P_idle \<longrightarrow>
      exec Q [Push p x, PStep p] s = Inl AssertionFailed) \<and>
   (\<not> c < max (n_consumers s) (n_producers s) \<and> cons s c = C_idle \<longrightarrow>
      exec Q [Pop c, CStep c] s = Inl AssertionFailed)"
proof -
  have a: "\<not> isl (exec Q es (spawn q))"
    if n: "LockFreeQueue_new N M a b = Inr q" and sz: "unat (max N M) < 2 ^ 60"
      and l: "list_all (\<lambda>e. event_tid e < unat (max N M)) es"
  proof -
    from reg_dim_init [OF sz n] have d: "reg_dim (spawn q)"
      and nm: "n_producers (spawn q) = unat N" "n_consumers (spawn q) = unat M" by simp_all
    have "list_all (\<lambda>e. event_tid e < max (n_consumers (spawn q)) (n_producers (spawn q))) es"
      using l nm by (simp add: max.commute unat_max)
    from exec_dim [OF d this, of Q] show ?thesis by auto
  qed
  show ?thesis
    using a push_out_of_range [of p s Q x] pop_out_of_range [of c s Q] by blast
qed

theorem registry_access_in_bounds_witness:
  "\<not> isl (exec 2 (ex_push @ ex_pop 1) (spawn ex_queue))
   \<and> exec 2 [Push 2 7, PStep 2] ex_sys = Inl AssertionFailed
   \<and> exec 2 [Pop 2, CStep 2] ex_sys = Inl AssertionFailed"
proof -
  have sz: "unat (max 1 2 :: ulong) < 2 ^ 60" by simp
  have l: "list_all (\<lambda>e. event_tid e < unat (max 1 2 :: ulong)) (ex_push @ ex_pop 1)"
    by (simp add: ex_push_def ex_pop_def replicate7 replicate11)
  have o: "\<not> 2 < max (n_consumers ex_sys) (n_producers ex_sys)" "prod ex_sys 2 = P_idle"
    "cons ex_sys 2 = C_idle"
    by (simp_all add: ex_sys_def spawn_def ex_queue_def)
  note T = registry_access_in_bounds [where N = 1 and M = 2 and a = True and b = "Some (\<lambda>_. 0)"
      and q = ex_queue and es = "ex_push @ ex_pop 1" and Q = 2 and p = 2 and s = ex_sys and x = 7
      and c = 2]
  have r1: "\<not> isl (exec 2 (ex_push @ ex_pop 1) (spawn ex_queue))"
    using T ex_queue_new sz l by blast
  have r2: "exec 2 [Push 2 7, PStep 2] ex_sys = Inl AssertionFailed"
    using T o by blast
  have r3: "exec 2 [Pop 2, CStep 2] ex_sys = Inl AssertionFailed"
    using T o by blast
  show ?thesis using r1 r2 r3 by simp
qed

section \<open>The distance between the counters\<close>

text \<open>
  Claim C1, as the specification states it: in every reachable state \<open>head >= tail\<close>
  and \<open>head - tail\<close> is at most \<open>Q\<close>. Both operations take their position with the
  fetch-and-add before they wait. A consumer that calls \<open>pop\<close> on the empty queue
  leaves \<open>tail = 1\<close> above \<open>head = 0\<close>; a producer that calls \<open>push\<close> on the full
  queue of capacity 2 leaves \<open>head = 3\<close> and \<open>tail = 0\<close>.
\<close>

theorem live_items_out_of_range:
  "LockFreeQueue_new 1 2 True (Some (\<lambda>_. 0)) = Inr ex_queue
   \<and> exec 2 ex_pop_first (spawn ex_queue) = Inr ex_tail_ahead
   \<and> head ex_tail_ahead = 0 \<and> tail ex_tail_ahead = 1
   \<and> \<not> live_items_ok 2 ex_tail_ahead
   \<and> exec 2 ex_push_third (spawn ex_queue) = Inr ex_head_ahead
   \<and> head ex_head_ahead = 3 \<and> tail ex_head_ahead = 0
   \<and> \<not> live_items_ok 2 ex_head_ahead"
  using ex_queue_new ex_tail_ahead_run ex_head_ahead_run
  by (simp add: live_items_ok_def ex_tail_ahead_obs ex_head_ahead_obs ex_sys_def)

text \<open>
  Claim C1, amended: in every state that producers with indices below \<open>N\<close> and
  consumers with indices below \<open>M\<close> reach from the constructed queue in at most
  \<open>2^64 - 1\<close> steps, under every interleaving, \<open>tail\<close> is at most \<open>head + M\<close> and
  \<open>head\<close> is at most \<open>tail + Q + N\<close> (as unsigned values): each counter runs ahead of
  the range \<open>tail <= head <= tail + Q\<close> by at most one position per thread that is
  still waiting.
\<close>

theorem live_items_bounds:
  assumes "LockFreeQueue_new N M a b = Inr q"
    and "list_all (wf_event (unat N) (unat M)) es"
    and "exec Q es (spawn q) = Inr s"
    and "length es \<le> 2 ^ 64 - 1"
  shows "unat (tail s) \<le> unat (head s) + unat M
       \<and> unat (head s) \<le> unat (tail s) + unat Q + unat N"
proof -
  note k = spawn_counts [OF assms(1)]
  have wf: "list_all (wf_event (n_producers (spawn q)) (n_consumers (spawn q))) es"
    using assms(2) k by simp
  have len: "0 + length es \<le> 2 ^ 64 - 1" using assms(4) by simp
  from cover_exec [OF inv_le_init [OF assms(1)] inv_cover_init [OF assms(1)] wf assms(3) len]
  have c: "inv_cover Q s" and n: "n_producers s = unat N" "n_consumers s = unat M"
    using k by simp_all
  from cover_bound_tail [OF c] cover_bound_head [OF c] n show ?thesis by simp
qed

theorem live_items_bounds_witness:
  "unat (tail ex_tail_ahead) \<le> unat (head ex_tail_ahead) + 2
   \<and> unat (head ex_tail_ahead) \<le> unat (tail ex_tail_ahead) + 2 + 1
   \<and> unat (head ex_head_ahead) \<le> unat (tail ex_head_ahead) + 2 + 1"
proof -
  have wf1: "list_all (wf_event (unat (1 :: ulong)) (unat (2 :: ulong))) ex_pop_first"
    by (simp add: ex_pop_first_def)
  have wf2: "list_all (wf_event (unat (1 :: ulong)) (unat (2 :: ulong))) ex_push_third"
    by (simp add: ex_push_third_def ex_push_def replicate7)
  have l1: "length ex_pop_first \<le> 2 ^ 64 - 1"
    by (simp add: ex_pop_first_def)
  have l2: "length ex_push_third \<le> 2 ^ 64 - 1"
    by (simp add: ex_push_third_def ex_push_def)
  have r1: "exec 2 ex_pop_first (spawn ex_queue) = Inr ex_tail_ahead"
    using ex_tail_ahead_run by (simp only: ex_sys_def)
  have r2: "exec 2 ex_push_third (spawn ex_queue) = Inr ex_head_ahead"
    using ex_head_ahead_run by (simp only: ex_sys_def)
  from live_items_bounds [OF ex_queue_new wf1 r1 l1] live_items_bounds [OF ex_queue_new wf2 r2 l2]
  show ?thesis by simp
qed

section \<open>The cached bounds\<close>




section \<open>First in, first out\<close>




end
